theory Spec2Isabelle
  imports Main
begin

section \<open>The voice pipeline of the main process\<close>

text \<open>
  The embedding follows the handler registered for \<open>VOICE_EVENTS.SAVE_AND_TRANSCRIBE\<close>
  in the main-process module, together with the module-level variables it reads and
  writes and the small handlers beside it (\<open>SET_CONTEXT\<close>, \<open>SET_MODEL\<close>,
  \<open>CLEAR_HISTORY\<close>, \<open>SET_HISTORY_ENABLED\<close>, \<open>resetAll\<close>).

  JavaScript strings are modelled as \<open>string\<close>, one \<open>char\<close> per code unit, and
  \<open>length\<close> is the \<open>.length\<close> of the source. Calls of the logger are left out, and so
  are the variables that only feed it (\<open>lastErr\<close>, \<open>chunkIndex\<close>, \<open>llmStart\<close>).
\<close>

subsection \<open>Module state\<close>

text \<open>\<open>interface VoiceTurn { q: string; a: string; ts: number }\<close>\<close>

record VoiceTurn =
  turn_q :: string
  turn_a :: string
  turn_ts :: nat

definition VOICE_HISTORY_MAX_TURNS :: nat where
  "VOICE_HISTORY_MAX_TURNS = 15"

definition VOICE_HISTORY_CHAR_LIMIT :: nat where
  "VOICE_HISTORY_CHAR_LIMIT = 2500"

text \<open>
  The request id is the template \<open>`${startTs}-${Math.random().toString(36).slice(2,8)}`\<close>;
  it is kept as the pair of its two parts.
\<close>

type_synonym request_id = "nat \<times> string"

text \<open>
  What the handler sends to the renderer with \<open>webContents.send\<close>. A status event
  carries its phase, the question and the request id when the source gives them (its fixed
  message text is left out); the three events of \<open>resetAll\<close> are the last three.
\<close>

datatype event =
    Status string "string option" "request_id option"
  | Partial request_id string string string
  | Result string string string request_id
  | ErrorEv string
  | ResetView
  | ProcessingReset
  | VoiceReset

text \<open>
  The observable actions, in the order the code performs them: a send to the window, the
  write of the audio file \<open>rec-${startTs}.webm\<close>, the POST to the transcription
  endpoint (with its language field) and the POST to the generation endpoint (with the
  model and the prompt).
\<close>

datatype effect =
    Send event
  | WriteFile nat "nat list"
  | PostTranscribe string
  | FetchGenerate string string

record gstate =
  voiceContext :: string
  voiceStreamingActive :: bool
  voicePreferredModel :: "string option"
  voiceHistory :: "VoiceTurn list"
  voiceHistoryEnabled :: bool
  mainWindow :: bool
  trace :: "effect list"

text \<open>\<open>state.mainWindow?.webContents.send(...)\<close>: nothing is sent without a window.\<close>

definition send :: "event \<Rightarrow> gstate \<Rightarrow> gstate" where
  "send ev g = (if mainWindow g then g\<lparr>trace := trace g @ [Send ev]\<rparr> else g)"

definition perform :: "effect \<Rightarrow> gstate \<Rightarrow> gstate" where
  "perform eff g = g\<lparr>trace := trace g @ [eff]\<rparr>"

subsection \<open>Strings of the platform\<close>

definition newline :: char where
  "newline = CHR 0x0A"

text \<open>The white space that \<open>String.prototype.trim\<close> strips, among the 8-bit code units.\<close>

definition is_space :: "char \<Rightarrow> bool" where
  "is_space c = (c \<in> set [CHR 0x09, CHR 0x0A, CHR 0x0B, CHR 0x0C, CHR 0x0D, CHR 0x20, CHR 0xA0])"

definition js_trim :: "string \<Rightarrow> string" where
  "js_trim s = rev (dropWhile is_space (rev (dropWhile is_space s)))"

text \<open>\<open>txt.split('\n')\<close>\<close>

fun split_nl :: "string \<Rightarrow> string list" where
  "split_nl [] = [[]]"
| "split_nl (c # cs) =
     (if c = newline then [] # split_nl cs
      else (case split_nl cs of [] \<Rightarrow> [[c]] | l # ls \<Rightarrow> (c # l) # ls))"

text \<open>\<open>xs.join(sep)\<close>\<close>

fun join :: "string \<Rightarrow> string list \<Rightarrow> string" where
  "join sep [] = []"
| "join sep [x] = x"
| "join sep (x # y # ys) = x @ sep @ join sep (y # ys)"

text \<open>\<open>a || b\<close> on strings: the empty string is falsy.\<close>

definition js_or :: "string \<Rightarrow> string \<Rightarrow> string" where
  "js_or x y = (if x \<noteq> [] then x else y)"

subsection \<open>Candidate models\<close>

definition defaultModels :: "string list" where
  "defaultModels = [''phi3:latest'', ''mistral:latest'', ''llama3'', ''gemma3:12b-it-qat'']"

text \<open>
  \<open>for (const dm of defaultModels) { if (!candidateModels.includes(dm)) candidateModels.push(dm) }\<close>
\<close>

fun push_missing :: "string list \<Rightarrow> string list \<Rightarrow> string list" where
  "push_missing cands [] = cands"
| "push_missing cands (dm # dms) =
     push_missing (if dm \<in> set cands then cands else cands @ [dm]) dms"

text \<open>The truth value of an optional string: absent and empty are falsy.\<close>

definition js_truthy :: "string option \<Rightarrow> bool" where
  "js_truthy s = (case s of None \<Rightarrow> False | Some x \<Rightarrow> x \<noteq> [])"

text \<open>
  \<open>if (args.model) { candidateModels = [args.model] }
   else if (voicePreferredModel) { candidateModels = [voicePreferredModel] }\<close>,
  then the loop over the defaults.
\<close>

definition candidateModels :: "string option \<Rightarrow> string option \<Rightarrow> string list" where
  "candidateModels override preferred =
     push_missing
       (if js_truthy override then [the override]
        else if js_truthy preferred then [the preferred]
        else [])
       defaultModels"

subsection \<open>The history section of the prompt\<close>

text \<open>\<open>`Q: ${turn.q}\nA: ${turn.a}\n\n`\<close>, whose length the loop adds up.\<close>

definition snippet :: "VoiceTurn \<Rightarrow> string" where
  "snippet t = ''Q: '' @ turn_q t @ [newline] @ ''A: '' @ turn_a t @ [newline, newline]"

text \<open>\<open>`Q: ${t.q}\nA: ${t.a}`\<close>, the block that is rendered.\<close>

definition block :: "VoiceTurn \<Rightarrow> string" where
  "block t = ''Q: '' @ turn_q t @ [newline] @ ''A: '' @ turn_a t"

definition history_header :: string where
  "history_header = ''Previous exchanges (context):'' @ [newline]"

text \<open>
  The loop \<open>for (let i = voiceHistory.length - 1; i >= 0; i--)\<close>, given the turns it
  still has to visit (newest first) and \<open>totalChars\<close>; it returns what it pushes on
  \<open>selected\<close>, in the order pushed, and stops at the \<open>break\<close>.
\<close>

fun select_turns :: "nat \<Rightarrow> nat \<Rightarrow> VoiceTurn list \<Rightarrow> VoiceTurn list" where
  "select_turns limit totalChars [] = []"
| "select_turns limit totalChars (t # rest) =
     (let nextTotal = totalChars + length (snippet t)
      in if nextTotal > limit then [] else t # select_turns limit nextTotal rest)"

definition historySection :: "nat \<Rightarrow> bool \<Rightarrow> VoiceTurn list \<Rightarrow> string" where
  "historySection limit enabled history =
     (if enabled \<and> history \<noteq> [] then
        (let selected = rev (select_turns limit 0 (rev history))
         in if selected \<noteq> []
            then history_header @ join [newline, newline] (map block selected) @ [newline, newline]
            else [])
      else [])"

definition systemPrefix :: "string \<Rightarrow> string" where
  "systemPrefix ctx =
     (if ctx \<noteq> []
      then ''Interview Context (use this perspective when answering):'' @ [newline]
           @ js_trim ctx @ [newline, newline]
      else [])"

definition promptBase :: "gstate \<Rightarrow> string \<Rightarrow> string" where
  "promptBase g transcription =
     systemPrefix (voiceContext g)
     @ historySection VOICE_HISTORY_CHAR_LIMIT (voiceHistoryEnabled g) (voiceHistory g)
     @ ''Question: '' @ transcription @ [newline, newline] @ ''Answer:''"

subsection \<open>The request and what the outside world answers\<close>

text \<open>
  \<open>args: { buffer: ArrayBuffer; model?: string; language?: string }\<close>. A missing
  \<open>args\<close> or a missing \<open>buffer\<close> is \<open>None\<close>; an \<open>ArrayBuffer\<close> of length 0 is
  \<open>Some []\<close>, an object and therefore truthy.
\<close>

record args =
  arg_buffer :: "nat list option"
  arg_model :: "string option"
  arg_language :: "string option"

text \<open>\<open>sttResp.data\<close> with its three fields (an absent field is the empty string), or the
  exception of \<open>axios.post\<close>.\<close>

datatype stt_response = SttThrows | SttData string string string

text \<open>
  What \<open>JSON.parse(line)\<close> followed by the reads of \<open>json.response\<close> and
  \<open>json.done\<close> gives: an exception (a syntax error, or the value \<open>null\<close>), or the
  text of \<open>response\<close> (empty when absent or falsy) and the truth value of \<open>done\<close>.
\<close>

datatype json_line = Unparsable | Json string bool

text \<open>How \<open>reader.read()\<close> ends after the last chunk: \<open>done\<close>, or an exception.\<close>

datatype read_end = EndOfStream | ReadThrows

text \<open>
  The answer of \<open>fetch\<close>: an exception, or a response with \<open>ok\<close>, \<open>status\<close> and a
  body, which is the decoded texts of the chunks read from it and how the reading ends.
  A body is a finite sequence of chunks.
\<close>

datatype fetch_response =
    FetchThrows
  | Response bool nat "(string list \<times> read_end) option"

text \<open>
  Everything one run of the handler asks of its surroundings: the clock at entry and at
  the history update, the file system (an exception with its message, if any), the import
  of axios, the \<open>FormData\<close> constructor and its \<open>append\<close>, the transcription service,
  the random part of the request id, the generation service for each model, and
  \<open>JSON.parse\<close>. Every call is taken to be answered, and every body to end or to break
  after finitely many chunks: a service that never answers leaves the handler suspended for
  ever, and such runs are outside this model.
\<close>

record env =
  startTs :: nat
  fs_error :: "string option"
  axios_error :: "string option"
  formData_available :: bool
  form_append_ok :: bool
  stt :: stt_response
  rand :: string
  llm :: "string \<Rightarrow> fetch_response"
  json_parse :: "string \<Rightarrow> json_line"
  pushTs :: nat

text \<open>\<open>new Error(message)\<close>\<close>

datatype exn = Error string

text \<open>The value the handler returns: \<open>{ success: true, question, answer, model, requestId }\<close>
  or \<open>{ success: false, error }\<close>.\<close>

datatype result =
    Success string string string request_id
  | Failure string

subsection \<open>The body of the handler, between its suspension points\<close>

text \<open>
  From the start of the \<open>try\<close> block to \<open>await import('axios')\<close>: the check of the
  buffer, the write of the audio file and the first status event.
\<close>

definition seg_write :: "env \<Rightarrow> args \<Rightarrow> gstate \<Rightarrow> (exn + unit) \<times> gstate" where
  "seg_write e ar g =
     (case arg_buffer ar of
        None \<Rightarrow> (Inl (Error ''No audio buffer provided''), g)
      | Some bytes \<Rightarrow>
          (case fs_error e of
             Some msg \<Rightarrow> (Inl (Error msg), g)
           | None \<Rightarrow>
               (Inr (), send (Status ''stt'' None None) (perform (WriteFile (startTs e) bytes) g))))"

text \<open>From the answer of \<open>import('axios')\<close> to \<open>await import('form-data')\<close>.\<close>

definition seg_axios :: "env \<Rightarrow> args \<Rightarrow> gstate \<Rightarrow> (exn + unit) \<times> gstate" where
  "seg_axios e ar g =
     (case axios_error e of
        Some msg \<Rightarrow> (Inl (Error msg), g)
      | None \<Rightarrow> (Inr (), g))"

text \<open>
  From the answer of \<open>import('form-data')\<close> (or its fallback to the global
  \<open>FormData\<close>) to the call of \<open>axios.post\<close>.
\<close>

definition seg_form :: "env \<Rightarrow> args \<Rightarrow> gstate \<Rightarrow> (exn + unit) \<times> gstate" where
  "seg_form e ar g =
     (if \<not> formData_available e
      then (Inl (Error ''FormData constructor unavailable (install form-data or upgrade Node)''), g)
      else if \<not> form_append_ok e
      then (Inl (Error ''Failed to prepare transcription request''), g)
      else (Inr (),
            perform (PostTranscribe
              (js_or (case arg_language ar of Some l \<Rightarrow> l | None \<Rightarrow> []) ''en'')) g))"

text \<open>The three together: from the start of the \<open>try\<close> block to the call of \<open>axios.post\<close>.\<close>

definition seg_entry :: "env \<Rightarrow> args \<Rightarrow> gstate \<Rightarrow> (exn + unit) \<times> gstate" where
  "seg_entry e ar g =
     (case seg_write e ar g of
        (Inl err, g1) \<Rightarrow> (Inl err, g1)
      | (Inr u, g1) \<Rightarrow>
          (case seg_axios e ar g1 of
             (Inl err, g2) \<Rightarrow> (Inl err, g2)
           | (Inr u, g2) \<Rightarrow> seg_form e ar g2))"

text \<open>
  From the answer of the transcription service to the line before
  \<open>voiceStreamingActive = true\<close>: the transcription, the request id, the prompt and the
  candidate models.
\<close>

definition seg_prompt ::
  "env \<Rightarrow> args \<Rightarrow> gstate \<Rightarrow> (exn + (string \<times> request_id \<times> string \<times> string list)) \<times> gstate" where
  "seg_prompt e ar g =
     (case stt e of
        SttThrows \<Rightarrow> (Inl (Error ''Transcription failed''), g)
      | SttData text transcr res \<Rightarrow>
          (let transcription = js_or text (js_or transcr (js_or res []))
           in if transcription = [] then (Inl (Error ''Empty transcription result''), g)
              else
                (let g1 = send (Status ''llm'' (Some transcription) None) g;
                     cands = candidateModels (arg_model ar) (voicePreferredModel g1);
                     prompt = promptBase g1 transcription;
                     requestId = (startTs e, rand e);
                     g2 = send (Status ''llm'' (Some transcription) (Some requestId)) g1
                 in (Inr (transcription, requestId, prompt, cands), g2))))"

text \<open>The lines of one decoded chunk: \<open>txt.split('\n').filter(l => l.trim())\<close>.\<close>

definition lines_of :: "string \<Rightarrow> string list" where
  "lines_of txt = filter (\<lambda>l. js_trim l \<noteq> []) (split_nl txt)"

text \<open>The body of \<open>for (const line of lines)\<close>, on \<open>answer\<close> and the state.\<close>

definition process_line ::
  "(string \<Rightarrow> json_line) \<Rightarrow> request_id \<Rightarrow> string \<Rightarrow> string \<times> gstate \<Rightarrow> string \<Rightarrow> string \<times> gstate" where
  "process_line parse requestId m ag line =
     (case parse line of
        Unparsable \<Rightarrow> ag
      | Json delta dn \<Rightarrow>
          (if delta \<noteq> []
           then (fst ag @ delta, send (Partial requestId delta (fst ag @ delta) m) (snd ag))
           else ag))"

definition process_chunk ::
  "(string \<Rightarrow> json_line) \<Rightarrow> request_id \<Rightarrow> string \<Rightarrow> string \<times> gstate \<Rightarrow> string \<Rightarrow> string \<times> gstate" where
  "process_chunk parse requestId m ag txt =
     foldl (process_line parse requestId m) ag (lines_of txt)"

text \<open>The \<open>while (true)\<close> loop over the chunks that \<open>reader.read()\<close> delivers.\<close>

definition read_loop ::
  "(string \<Rightarrow> json_line) \<Rightarrow> request_id \<Rightarrow> string \<Rightarrow> string list \<Rightarrow> string \<times> gstate \<Rightarrow> string \<times> gstate" where
  "read_loop parse requestId m chunks ag =
     foldl (process_chunk parse requestId m) ag chunks"

text \<open>
  \<open>for (const m of candidateModels)\<close>: the result is \<open>usedModel\<close>, \<open>answer\<close> and the
  state. Every attempt starts from the empty \<open>answer\<close>: it is empty before the loop and
  the \<open>catch\<close> of a failed attempt empties it again.
\<close>

fun gen_loop ::
  "env \<Rightarrow> request_id \<Rightarrow> string \<Rightarrow> string list \<Rightarrow> gstate \<Rightarrow> string option \<times> string \<times> gstate" where
  "gen_loop e requestId prompt [] g = (None, [], g)"
| "gen_loop e requestId prompt (m # ms) g =
     (let g1 = perform (FetchGenerate m prompt) g
      in case llm e m of
           FetchThrows \<Rightarrow> gen_loop e requestId prompt ms g1
         | Response ok status body \<Rightarrow>
             (case body of
                None \<Rightarrow> gen_loop e requestId prompt ms g1
              | Some (chunks, fin) \<Rightarrow>
                  if \<not> ok then gen_loop e requestId prompt ms g1
                  else
                    (let ag = read_loop (json_parse e) requestId m chunks ([], g1)
                     in case fin of
                          ReadThrows \<Rightarrow> gen_loop e requestId prompt ms (snd ag)
                        | EndOfStream \<Rightarrow> (Some m, fst ag, snd ag))))"

text \<open>\<open>voiceHistory.push(turn)\<close> and the trim with \<open>slice(-VOICE_HISTORY_MAX_TURNS)\<close>.\<close>

definition push_turn :: "VoiceTurn \<Rightarrow> VoiceTurn list \<Rightarrow> VoiceTurn list" where
  "push_turn t h =
     (let h1 = h @ [t]
      in if length h1 > VOICE_HISTORY_MAX_TURNS
         then drop (length h1 - VOICE_HISTORY_MAX_TURNS) h1
         else h1)"

text \<open>
  From the line after \<open>voiceStreamingActive = false\<close> to the \<open>return\<close> of the
  \<open>try\<close> block. \<open>!usedModel\<close> holds for \<open>null\<close> and for the empty string.
\<close>

definition conclude ::
  "env \<Rightarrow> string \<Rightarrow> request_id \<Rightarrow> string option \<Rightarrow> string \<Rightarrow> gstate \<Rightarrow> (exn + result) \<times> gstate" where
  "conclude e transcription requestId usedModel answer g =
     (case usedModel of
        None \<Rightarrow> (Inl (Error ''LLM generation failed for all models''), g)
      | Some m \<Rightarrow>
          if m = [] then (Inl (Error ''LLM generation failed for all models''), g)
          else
            (let answer1 = (if answer = [] then ''No answer generated.'' else answer);
                 g1 = (if voiceHistoryEnabled g
                       then g\<lparr>voiceHistory :=
                              push_turn \<lparr>turn_q = transcription, turn_a = answer1, turn_ts = pushTs e\<rparr>
                                (voiceHistory g)\<rparr>
                       else g);
                 g2 = send (Result transcription answer1 m requestId) g1
             in (Inr (Success transcription answer1 m requestId), g2)))"

text \<open>The \<open>catch\<close> block at the top level of the handler.\<close>

fun catch_top :: "exn \<Rightarrow> gstate \<Rightarrow> result \<times> gstate" where
  "catch_top (Error message) g =
     (let msg = js_or message ''Voice processing failed''
      in (Failure msg, (send (ErrorEv msg) g)\<lparr>voiceStreamingActive := False\<rparr>))"

subsection \<open>The handler, run without interruption\<close>

text \<open>The \<open>try\<close> block: its \<open>return\<close> value, or the exception that leaves it.\<close>

definition try_body :: "env \<Rightarrow> args \<Rightarrow> gstate \<Rightarrow> (exn + result) \<times> gstate" where
  "try_body e ar g =
     (case seg_entry e ar g of
        (Inl err, g1) \<Rightarrow> (Inl err, g1)
      | (Inr u, g1) \<Rightarrow>
          (case seg_prompt e ar g1 of
             (Inl err, g2) \<Rightarrow> (Inl err, g2)
           | (Inr (transcription, requestId, prompt, cands), g2) \<Rightarrow>
               (case gen_loop e requestId prompt cands (g2\<lparr>voiceStreamingActive := True\<rparr>) of
                  (usedModel, answer, g3) \<Rightarrow>
                    conclude e transcription requestId usedModel answer
                      (g3\<lparr>voiceStreamingActive := False\<rparr>))))"

text \<open>The admission check, the \<open>try\<close> block and its \<open>catch\<close>.\<close>

definition handler :: "env \<Rightarrow> args \<Rightarrow> gstate \<Rightarrow> result \<times> gstate" where
  "handler e ar g =
     (if voiceStreamingActive g then (Failure ''Another voice request in progress'', g)
      else
        (case try_body e ar g of
           (Inl err, g1) \<Rightarrow> catch_top err g1
         | (Inr r, g1) \<Rightarrow> (r, g1)))"

subsection \<open>The handler as a task that is suspended and resumed\<close>

text \<open>
  The handler is an \<open>async\<close> function. It runs until it awaits the import of axios, the
  import of form-data, the transcription service, the answer of a \<open>fetch\<close> or the next
  chunk of a body, and another handler of the module may run before it is resumed. A
  phase is the point where a task waits,
  with the local variables it still needs: the transcription, the request id, the prompt,
  the model being tried, the candidates after it and, while a body is read, the chunks
  still to come, how the body ends, and \<open>answer\<close>.
\<close>

datatype phase =
    Importing
  | ImportingForm
  | Transcribing
  | Fetching string request_id string string "string list"
  | Reading string request_id string string "string list" "string list" read_end string
  | Finished result

text \<open>Leaving the loop over the candidates: \<open>voiceStreamingActive = false\<close> and the rest.\<close>

definition finish ::
  "env \<Rightarrow> string \<Rightarrow> request_id \<Rightarrow> string option \<Rightarrow> string \<Rightarrow> gstate \<Rightarrow> phase \<times> gstate" where
  "finish e transcription requestId usedModel answer g =
     (case conclude e transcription requestId usedModel answer (g\<lparr>voiceStreamingActive := False\<rparr>) of
        (Inl err, g1) \<Rightarrow> (case catch_top err g1 of (r, g2) \<Rightarrow> (Finished r, g2))
      | (Inr r, g1) \<Rightarrow> (Finished r, g1))"

text \<open>The next iteration of the loop over the candidates, up to its \<open>fetch\<close>.\<close>

definition next_fetch ::
  "env \<Rightarrow> string \<Rightarrow> request_id \<Rightarrow> string \<Rightarrow> string list \<Rightarrow> gstate \<Rightarrow> phase \<times> gstate" where
  "next_fetch e transcription requestId prompt ms g =
     (case ms of
        [] \<Rightarrow> finish e transcription requestId None [] g
      | m # rest \<Rightarrow>
          (Fetching transcription requestId prompt m rest, perform (FetchGenerate m prompt) g))"

text \<open>An invocation runs from the admission check to the first suspension.\<close>

definition start :: "env \<Rightarrow> args \<Rightarrow> gstate \<Rightarrow> phase \<times> gstate" where
  "start e ar g =
     (if voiceStreamingActive g then (Finished (Failure ''Another voice request in progress''), g)
      else
        (case seg_write e ar g of
           (Inl err, g1) \<Rightarrow> (case catch_top err g1 of (r, g2) \<Rightarrow> (Finished r, g2))
         | (Inr u, g1) \<Rightarrow> (Importing, g1)))"

text \<open>A suspended task runs from the answer it waited for to its next suspension.\<close>

fun resume :: "env \<Rightarrow> args \<Rightarrow> phase \<Rightarrow> gstate \<Rightarrow> phase \<times> gstate" where
  "resume e ar Importing g =
     (case seg_axios e ar g of
        (Inl err, g1) \<Rightarrow> (case catch_top err g1 of (r, g2) \<Rightarrow> (Finished r, g2))
      | (Inr u, g1) \<Rightarrow> (ImportingForm, g1))"
| "resume e ar ImportingForm g =
     (case seg_form e ar g of
        (Inl err, g1) \<Rightarrow> (case catch_top err g1 of (r, g2) \<Rightarrow> (Finished r, g2))
      | (Inr u, g1) \<Rightarrow> (Transcribing, g1))"
| "resume e ar Transcribing g =
     (case seg_prompt e ar g of
        (Inl err, g1) \<Rightarrow> (case catch_top err g1 of (r, g2) \<Rightarrow> (Finished r, g2))
      | (Inr (transcription, requestId, prompt, cands), g1) \<Rightarrow>
          next_fetch e transcription requestId prompt cands (g1\<lparr>voiceStreamingActive := True\<rparr>))"
| "resume e ar (Fetching transcription requestId prompt m rest) g =
     (case llm e m of
        FetchThrows \<Rightarrow> next_fetch e transcription requestId prompt rest g
      | Response ok status body \<Rightarrow>
          (case body of
             None \<Rightarrow> next_fetch e transcription requestId prompt rest g
           | Some (chunks, fin) \<Rightarrow>
               if \<not> ok then next_fetch e transcription requestId prompt rest g
               else (Reading transcription requestId prompt m rest chunks fin [], g)))"
| "resume e ar (Reading transcription requestId prompt m rest [] fin answer) g =
     (case fin of
        ReadThrows \<Rightarrow> next_fetch e transcription requestId prompt rest g
      | EndOfStream \<Rightarrow> finish e transcription requestId (Some m) answer g)"
| "resume e ar (Reading transcription requestId prompt m rest (c # cs) fin answer) g =
     (case process_chunk (json_parse e) requestId m (answer, g) c of
        (answer1, g1) \<Rightarrow> (Reading transcription requestId prompt m rest cs fin answer1, g1))"
| "resume e ar (Finished r) g = (Finished r, g)"

text \<open>What a task reaches when it is resumed again and again with nothing in between.\<close>

inductive reaches :: "env \<Rightarrow> args \<Rightarrow> phase \<times> gstate \<Rightarrow> phase \<times> gstate \<Rightarrow> bool"
  for e :: env and ar :: args where
    reaches_here: "reaches e ar c c"
  | reaches_resume: "reaches e ar (resume e ar p g) c \<Longrightarrow> reaches e ar (p, g) c"

definition streaming :: "phase \<Rightarrow> bool" where
  "streaming p = (case p of Fetching _ _ _ _ _ \<Rightarrow> True | Reading _ _ _ _ _ _ _ _ \<Rightarrow> True | _ \<Rightarrow> False)"

subsection \<open>The other handlers of the module\<close>

text \<open>\<open>voiceContext = (ctx || '').slice(0, 4000)\<close>\<close>

definition set_context :: "string \<Rightarrow> gstate \<Rightarrow> gstate" where
  "set_context ctx g = g\<lparr>voiceContext := take 4000 ctx\<rparr>"

definition set_model :: "string \<Rightarrow> gstate \<Rightarrow> gstate" where
  "set_model model g =
     (if js_trim model \<noteq> [] then g\<lparr>voicePreferredModel := Some (js_trim model)\<rparr> else g)"

definition clear_history :: "gstate \<Rightarrow> gstate" where
  "clear_history g = g\<lparr>voiceHistory := []\<rparr>"

definition set_history_enabled :: "bool \<Rightarrow> gstate \<Rightarrow> gstate" where
  "set_history_enabled enabled g = g\<lparr>voiceHistoryEnabled := enabled\<rparr>"

text \<open>\<open>resetAll\<close>, as far as it touches the voice state and the window.\<close>

definition resetAll :: "gstate \<Rightarrow> gstate" where
  "resetAll g =
     send VoiceReset (send ProcessingReset (send ResetView
       (g\<lparr>voiceHistory := [], voiceStreamingActive := False\<rparr>)))"

subsection \<open>The module with its tasks\<close>

text \<open>
  The main process runs one handler at a time, each up to its next suspension. The system
  is the module state with the tasks started so far; a step is an invocation of the voice
  handler, the resumption of a suspended task, or one of the other handlers.
\<close>

type_synonym task = "env \<times> args \<times> phase"

datatype ipc =
    Invoke env args
  | Resume nat
  | SetContext string
  | SetModel string
  | ClearHistory
  | SetHistoryEnabled bool
  | ResetAll

fun sys_step :: "gstate \<times> task list \<Rightarrow> ipc \<Rightarrow> gstate \<times> task list" where
  "sys_step (g, ts) (Invoke e ar) =
     (case start e ar g of (p, g1) \<Rightarrow> (g1, ts @ [(e, ar, p)]))"
| "sys_step (g, ts) (Resume i) =
     (if i < length ts
      then (case ts ! i of
              (e, ar, p) \<Rightarrow> (case resume e ar p g of (p1, g1) \<Rightarrow> (g1, ts[i := (e, ar, p1)])))
      else (g, ts))"
| "sys_step (g, ts) (SetContext ctx) = (set_context ctx g, ts)"
| "sys_step (g, ts) (SetModel model) = (set_model model g, ts)"
| "sys_step (g, ts) ClearHistory = (clear_history g, ts)"
| "sys_step (g, ts) (SetHistoryEnabled enabled) = (set_history_enabled enabled g, ts)"
| "sys_step (g, ts) ResetAll = (resetAll g, ts)"

definition sys_run :: "gstate \<times> task list \<Rightarrow> ipc list \<Rightarrow> gstate \<times> task list" where
  "sys_run s ops = foldl sys_step s ops"

text \<open>The module as it is loaded, with or without a window.\<close>

definition initial_state :: "bool \<Rightarrow> gstate" where
  "initial_state w =
     \<lparr>voiceContext = [], voiceStreamingActive = False, voicePreferredModel = None,
      voiceHistory = [], voiceHistoryEnabled = True, mainWindow = w, trace = []\<rparr>"

text \<open>A run of requests one after the other, each handled to its end before the next.\<close>

fun handle_all :: "(env \<times> args) list \<Rightarrow> gstate \<Rightarrow> result list \<times> gstate" where
  "handle_all [] g = ([], g)"
| "handle_all ((e, ar) # rest) g =
     (case handler e ar g of
        (r, g1) \<Rightarrow> (case handle_all rest g1 of (rs, g2) \<Rightarrow> (r # rs, g2)))"

section \<open>Notions for stating the properties\<close>

subsection \<open>The candidate list in the words of the specification\<close>

text \<open>
  Duplicates removed while preserving first-seen order, as the specification words it:
  of equal entries the first one stays.
\<close>

definition first_seen :: "string list \<Rightarrow> string list" where
  "first_seen xs = rev (remdups (rev xs))"

subsection \<open>What a run of the generation loop reads and sends\<close>

text \<open>Several events sent one after the other.\<close>

definition emit :: "event list \<Rightarrow> gstate \<Rightarrow> gstate" where
  "emit evs g = (if mainWindow g then g\<lparr>trace := trace g @ map Send evs\<rparr> else g)"

text \<open>The non-empty \<open>response\<close> texts of the lines of one chunk that parse, in order.\<close>

definition line_deltas :: "(string \<Rightarrow> json_line) \<Rightarrow> string \<Rightarrow> string list" where
  "line_deltas parse txt =
     concat (map (\<lambda>l. case parse l of
                          Unparsable \<Rightarrow> []
                        | Json delta dn \<Rightarrow> (if delta \<noteq> [] then [delta] else []))
                 (lines_of txt))"

definition deltas_of :: "(string \<Rightarrow> json_line) \<Rightarrow> string list \<Rightarrow> string list" where
  "deltas_of parse chunks = concat (map (line_deltas parse) chunks)"

text \<open>
  The partial events for deltas read one after the other, given the cumulative text
  before them: each carries its delta and the text so far with the delta appended.
\<close>

fun partial_events :: "request_id \<Rightarrow> string \<Rightarrow> string \<Rightarrow> string list \<Rightarrow> event list" where
  "partial_events requestId m answer [] = []"
| "partial_events requestId m answer (d # ds) =
     Partial requestId d (answer @ d) m # partial_events requestId m (answer @ d) ds"

text \<open>
  An attempt with model \<open>m\<close> completes when \<open>fetch\<close> answers with \<open>ok\<close> and a body
  that is read to its end. Every other answer is an error of the attempt: an exception of
  \<open>fetch\<close>, a status that is not \<open>ok\<close>, a missing body, an exception while reading.
\<close>

definition succeeds :: "env \<Rightarrow> string \<Rightarrow> bool" where
  "succeeds e m =
     (case llm e m of
        FetchThrows \<Rightarrow> False
      | Response ok status body \<Rightarrow>
          (case body of None \<Rightarrow> False
           | Some (chunks, fin) \<Rightarrow> ok \<and> fin = EndOfStream))"

text \<open>The chunks that an attempt with model \<open>m\<close> reads, whether it completes or not.\<close>

definition body_chunks :: "env \<Rightarrow> string \<Rightarrow> string list" where
  "body_chunks e m =
     (case llm e m of
        FetchThrows \<Rightarrow> []
      | Response ok status body \<Rightarrow>
          (case body of None \<Rightarrow> []
           | Some (chunks, fin) \<Rightarrow> (if ok then chunks else [])))"

definition attempt_events :: "env \<Rightarrow> request_id \<Rightarrow> string \<Rightarrow> event list" where
  "attempt_events e requestId m =
     partial_events requestId m [] (deltas_of (json_parse e) (body_chunks e m))"

text \<open>The candidates up to and including the first that completes.\<close>

definition attempted :: "env \<Rightarrow> string list \<Rightarrow> string list" where
  "attempted e ms =
     takeWhile (\<lambda>m. \<not> succeeds e m) ms @ take 1 (dropWhile (\<lambda>m. \<not> succeeds e m) ms)"

definition attempt_trace :: "env \<Rightarrow> request_id \<Rightarrow> string \<Rightarrow> bool \<Rightarrow> string \<Rightarrow> effect list" where
  "attempt_trace e requestId prompt w m =
     FetchGenerate m prompt # (if w then map Send (attempt_events e requestId m) else [])"

subsection \<open>What a run of the handler depends on\<close>

text \<open>\<open>sttResp.data?.text || sttResp.data?.transcription || sttResp.data?.result || ''\<close>\<close>

definition transcription_of :: "stt_response \<Rightarrow> string" where
  "transcription_of r =
     (case r of SttThrows \<Rightarrow> [] | SttData text transcr res \<Rightarrow> js_or text (js_or transcr (js_or res [])))"

text \<open>
  The handler gets as far as the loop over the candidates: it is admitted, the buffer is
  there, nothing throws before the transcription, and the transcription is not empty.
\<close>

definition generates :: "env \<Rightarrow> args \<Rightarrow> gstate \<Rightarrow> bool" where
  "generates e ar g =
     (\<not> voiceStreamingActive g \<and> arg_buffer ar \<noteq> None \<and> fs_error e = None
      \<and> axios_error e = None \<and> formData_available e \<and> form_append_ok e
      \<and> transcription_of (stt e) \<noteq> [])"

text \<open>The text that the deltas read from the body of model \<open>m\<close> add up to.\<close>

definition streamed :: "env \<Rightarrow> string \<Rightarrow> string" where
  "streamed e m = concat (deltas_of (json_parse e) (body_chunks e m))"

definition final_answer :: "string \<Rightarrow> string" where
  "final_answer s = (if s = [] then ''No answer generated.'' else s)"

text \<open>
  The state in which a run that gets to the loop over the candidates leaves it, after
  \<open>voiceStreamingActive = false\<close>: the trace has grown by the effects up to the loop and
  by the attempts made.
\<close>

definition left_loop :: "env \<Rightarrow> args \<Rightarrow> gstate \<Rightarrow> gstate" where
  "left_loop e ar g =
     (snd (seg_prompt e ar (snd (seg_entry e ar g))))
       \<lparr>trace := trace (snd (seg_prompt e ar (snd (seg_entry e ar g))))
          @ concat (map (attempt_trace e (startTs e, rand e) (promptBase g (transcription_of (stt e)))
                           (mainWindow g))
                        (attempted e (candidateModels (arg_model ar) (voicePreferredModel g)))),
        voiceStreamingActive := False\<rparr>"

subsection \<open>Series of runs\<close>

text \<open>The turns that the successful runs among a series of results add, oldest first.\<close>

fun turns_of :: "(result \<times> env) list \<Rightarrow> VoiceTurn list" where
  "turns_of [] = []"
| "turns_of ((Success question answer m requestId, e) # rest) =
     \<lparr>turn_q = question, turn_a = answer, turn_ts = pushTs e\<rparr> # turns_of rest"
| "turns_of ((Failure msg, e) # rest) = turns_of rest"

fun is_success :: "result \<Rightarrow> bool" where
  "is_success (Success question answer m requestId) = True"
| "is_success (Failure msg) = False"

text \<open>The last \<open>n\<close> entries of a list, in their order.\<close>

definition newest :: "nat \<Rightarrow> 'a list \<Rightarrow> 'a list" where
  "newest n xs = drop (length xs - n) xs"

subsection \<open>Reading the trace\<close>

fun is_partial :: "effect \<Rightarrow> bool" where
  "is_partial (Send (Partial requestId delta answer m)) = True"
| "is_partial eff = False"

text \<open>A call over the network: to the transcription or to the generation service.\<close>

fun is_network :: "effect \<Rightarrow> bool" where
  "is_network (PostTranscribe language) = True"
| "is_network (FetchGenerate m prompt) = True"
| "is_network eff = False"

text \<open>An error event sent to the window.\<close>

fun is_error_event :: "effect \<Rightarrow> bool" where
  "is_error_event (Send (ErrorEv msg)) = True"
| "is_error_event eff = False"

text \<open>A task that has not yet returned.\<close>

fun in_flight :: "phase \<Rightarrow> bool" where
  "in_flight (Finished r) = False"
| "in_flight p = True"

text \<open>
  The cumulative text of each partial event is the text of the event before it (at first,
  \<open>prev\<close>) followed by its own delta.
\<close>

fun growing :: "string \<Rightarrow> event list \<Rightarrow> bool" where
  "growing prev [] = True"
| "growing prev (Partial requestId delta answer m # evs) =
     (answer = prev @ delta \<and> growing answer evs)"
| "growing prev (ev # evs) = False"

text \<open>The text \<open>new\<close> starts with the text \<open>old\<close>.\<close>

definition extends :: "string \<Rightarrow> string \<Rightarrow> bool" where
  "extends new old = (take (length old) new = old)"

section \<open>Sample data and sample runs\<close>

definition turn_one :: VoiceTurn where
  "turn_one = \<lparr>turn_q = ''old question'', turn_a = ''old answer'', turn_ts = 1\<rparr>"

definition turn_two :: VoiceTurn where
  "turn_two = \<lparr>turn_q = ''hi'', turn_a = ''yo'', turn_ts = 2\<rparr>"

text \<open>
  A stand-in for \<open>JSON.parse\<close> that knows three lines of the generation service and
  rejects every other line.
\<close>

definition toy_parse :: "string \<Rightarrow> json_line" where
  \<open>toy_parse l =
     (if l = ''{"response":"a"}'' then Json ''a'' False
      else if l = ''{"response":"b"}'' then Json ''b'' False
      else if l = ''{"done":true}'' then Json [] True
      else Unparsable)\<close>

text \<open>The body \<open>{"response":"a"}\n{"response":"b"}\n{"done":true}\n\<close>, read as one chunk.\<close>

definition body_ab :: "string list" where
  \<open>body_ab = [''{"response":"a"}'' @ [newline] @ ''{"response":"b"}'' @ [newline]
              @ ''{"done":true}'' @ [newline]]\<close>

text \<open>The first two default models answer with an error status, every other model streams.\<close>

definition llm_third :: "string \<Rightarrow> fetch_response" where
  "llm_third m =
     (if m = ''phi3:latest'' then Response False 500 None
      else if m = ''mistral:latest'' then Response False 404 None
      else Response True 200 (Some (body_ab, EndOfStream)))"

text \<open>
  The first default model streams one delta and then its connection breaks; every other
  model streams the body above.
\<close>

definition chunk_b :: string where
  \<open>chunk_b = ''{"response":"b"}'' @ [newline]\<close>

definition llm_broken :: "string \<Rightarrow> fetch_response" where
  "llm_broken m =
     (if m = ''phi3:latest''
      then Response True 200 (Some ([chunk_b], ReadThrows))
      else Response True 200 (Some (body_ab, EndOfStream)))"

definition env_third :: env where
  "env_third =
     \<lparr>startTs = 100, fs_error = None, axios_error = None, formData_available = True,
      form_append_ok = True, stt = SttData ''what is up'' [] [], rand = ''k3x9ab'',
      llm = llm_third, json_parse = toy_parse, pushTs = 200\<rparr>"

definition env_broken :: env where
  "env_broken = env_third\<lparr>llm := llm_broken\<rparr>"

definition args_audio :: args where
  "args_audio = \<lparr>arg_buffer = Some [26, 69, 223, 163], arg_model = None, arg_language = None\<rparr>"

definition args_empty :: args where
  "args_empty = \<lparr>arg_buffer = Some [], arg_model = None, arg_language = None\<rparr>"

definition args_missing :: args where
  "args_missing = \<lparr>arg_buffer = None, arg_model = None, arg_language = None\<rparr>"

text \<open>Runs that fail: the file cannot be written, the transcription service is down, no
  model can be reached.\<close>

definition env_fs :: env where
  "env_fs = env_third\<lparr>fs_error := Some ''EACCES: permission denied''\<rparr>"

definition env_stt :: env where
  "env_stt = env_third\<lparr>stt := SttThrows\<rparr>"

definition llm_down :: "string \<Rightarrow> fetch_response" where
  "llm_down m = FetchThrows"

definition env_down :: env where
  "env_down = env_third\<lparr>llm := llm_down\<rparr>"

text \<open>
  Every model streams the body above. One request is invoked and resumed four times
  (axios, form-data, the transcription, the answer of the first \<open>fetch\<close>), so that it
  reads the body; then \<open>resetAll\<close> runs, the only handler of the module outside the voice
  handler that clears the streaming flag; then the request is resumed to its end.
\<close>

definition llm_stream :: "string \<Rightarrow> fetch_response" where
  "llm_stream m = Response True 200 (Some (body_ab, EndOfStream))"

definition env_stream :: env where
  "env_stream = env_third\<lparr>llm := llm_stream\<rparr>"

definition reset_mid_stream :: "ipc list" where
  "reset_mid_stream =
     [Invoke env_stream args_audio, Resume 0, Resume 0, Resume 0, Resume 0, ResetAll,
      Resume 0, Resume 0]"

text \<open>
  Requests that overlap. The second request is invoked while the first waits for the
  transcription service. In the second series both are then resumed into the loop over the
  candidate models. In the third series the transcription of the second request fails
  while the first is in that loop, and a third request is invoked after it.
\<close>

definition second_invoked :: "ipc list" where
  "second_invoked =
     [Invoke env_third args_audio, Resume 0, Resume 0, Invoke env_third args_audio]"

definition both_resumed :: "ipc list" where
  "both_resumed = second_invoked @ [Resume 1, Resume 1, Resume 0, Resume 1]"

definition third_invoked :: "ipc list" where
  "third_invoked =
     [Invoke env_third args_audio, Resume 0, Resume 0, Invoke env_stt args_audio,
      Resume 1, Resume 1, Resume 0, Resume 1, Invoke env_third args_audio]"

text \<open>Every model answers with a page that is no JSON.\<close>

definition chunk_html :: string where
  "chunk_html = ''<html>502 Bad Gateway</html>''"

definition llm_garbage :: "string \<Rightarrow> fetch_response" where
  "llm_garbage m = Response True 200 (Some ([chunk_html], EndOfStream))"

definition env_garbage :: env where
  "env_garbage = env_third\<lparr>llm := llm_garbage\<rparr>"

text \<open>The module state while some request is in the loop over the candidate models.\<close>

definition state_streaming :: gstate where
  "state_streaming = (initial_state True)\<lparr>voiceStreamingActive := True\<rparr>"

section \<open>Verified properties\<close>

subsection \<open>The segments put together\<close>

lemma seg_entry_eq:
  "seg_entry e ar g =
     (case arg_buffer ar of
        None \<Rightarrow> (Inl (Error ''No audio buffer provided''), g)
      | Some bytes \<Rightarrow>
          (case fs_error e of
             Some msg \<Rightarrow> (Inl (Error msg), g)
           | None \<Rightarrow>
               (let g1 = perform (WriteFile (startTs e) bytes) g;
                    g2 = send (Status ''stt'' None None) g1
                in case axios_error e of
                     Some msg \<Rightarrow> (Inl (Error msg), g2)
                   | None \<Rightarrow>
                       if \<not> formData_available e
                       then (Inl (Error ''FormData constructor unavailable (install form-data or upgrade Node)''), g2)
                       else if \<not> form_append_ok e
                       then (Inl (Error ''Failed to prepare transcription request''), g2)
                       else (Inr (),
                             perform (PostTranscribe
                               (js_or (case arg_language ar of Some l \<Rightarrow> l | None \<Rightarrow> []) ''en'')) g2))))"
  by (simp add: seg_entry_def seg_write_def seg_axios_def seg_form_def Let_def
           split: option.split)

lemma handler_eq:
  "handler e ar g =
     (if voiceStreamingActive g then (Failure ''Another voice request in progress'', g)
      else
        (case seg_entry e ar g of
           (Inl err, g1) \<Rightarrow> catch_top err g1
         | (Inr u, g1) \<Rightarrow>
             (case seg_prompt e ar g1 of
                (Inl err, g2) \<Rightarrow> catch_top err g2
              | (Inr (transcription, requestId, prompt, cands), g2) \<Rightarrow>
                  (case gen_loop e requestId prompt cands (g2\<lparr>voiceStreamingActive := True\<rparr>) of
                     (usedModel, answer, g3) \<Rightarrow>
                       (case conclude e transcription requestId usedModel answer
                               (g3\<lparr>voiceStreamingActive := False\<rparr>) of
                          (Inl err, g4) \<Rightarrow> catch_top err g4
                        | (Inr r, g4) \<Rightarrow> (r, g4))))))"
  by (simp add: handler_def try_body_def del: catch_top.simps
           split: prod.split sum.split)

subsection \<open>Sending, and the loops over lines, chunks and candidates\<close>

lemma send_fields [simp]:
  "voiceContext (send ev g) = voiceContext g"
  "voiceStreamingActive (send ev g) = voiceStreamingActive g"
  "voicePreferredModel (send ev g) = voicePreferredModel g"
  "voiceHistory (send ev g) = voiceHistory g"
  "voiceHistoryEnabled (send ev g) = voiceHistoryEnabled g"
  "mainWindow (send ev g) = mainWindow g"
  by (simp_all add: send_def)

lemma perform_fields [simp]:
  "voiceContext (perform eff g) = voiceContext g"
  "voiceStreamingActive (perform eff g) = voiceStreamingActive g"
  "voicePreferredModel (perform eff g) = voicePreferredModel g"
  "voiceHistory (perform eff g) = voiceHistory g"
  "voiceHistoryEnabled (perform eff g) = voiceHistoryEnabled g"
  "mainWindow (perform eff g) = mainWindow g"
  "trace (perform eff g) = trace g @ [eff]"
  by (simp_all add: perform_def)

lemma emit_fields [simp]:
  "voiceContext (emit evs g) = voiceContext g"
  "voiceStreamingActive (emit evs g) = voiceStreamingActive g"
  "voicePreferredModel (emit evs g) = voicePreferredModel g"
  "voiceHistory (emit evs g) = voiceHistory g"
  "voiceHistoryEnabled (emit evs g) = voiceHistoryEnabled g"
  "mainWindow (emit evs g) = mainWindow g"
  "trace (emit evs g) = trace g @ (if mainWindow g then map Send evs else [])"
  by (simp_all add: emit_def)

lemma emit_Nil [simp]: "emit [] g = g"
  by (simp add: emit_def)

lemma emit_append: "emit (xs @ ys) g = emit ys (emit xs g)"
  by (simp add: emit_def)

lemma send_emit: "send ev g = emit [ev] g"
  by (simp add: send_def emit_def)

lemma partial_events_append:
  "partial_events rid m ans (xs @ ys)
     = partial_events rid m ans xs @ partial_events rid m (ans @ concat xs) ys"
  by (induction xs arbitrary: ans) simp_all

lemma process_line_eq:
  "process_line parse rid m (ans, g) l =
     (ans @ concat (case parse l of Unparsable \<Rightarrow> [] | Json d dn \<Rightarrow> (if d \<noteq> [] then [d] else [])),
      emit (partial_events rid m ans
              (case parse l of Unparsable \<Rightarrow> [] | Json d dn \<Rightarrow> (if d \<noteq> [] then [d] else []))) g)"
  by (simp add: process_line_def send_emit split: json_line.split)

lemma foldl_process_line:
  "foldl (process_line parse rid m) (ans, g) ls =
     (ans @ concat (concat (map (\<lambda>l. case parse l of Unparsable \<Rightarrow> [] | Json d dn \<Rightarrow> (if d \<noteq> [] then [d] else [])) ls)),
      emit (partial_events rid m ans
              (concat (map (\<lambda>l. case parse l of Unparsable \<Rightarrow> [] | Json d dn \<Rightarrow> (if d \<noteq> [] then [d] else [])) ls))) g)"
proof (induction ls arbitrary: ans g)
  case Nil
  then show ?case by simp
next
  case (Cons l ls)
  show ?case
    by (simp only: foldl_Cons process_line_eq Cons.IH list.map concat.simps
                   partial_events_append emit_append concat_append append_assoc)
qed

lemma process_chunk_eq:
  "process_chunk parse rid m (ans, g) txt =
     (ans @ concat (line_deltas parse txt),
      emit (partial_events rid m ans (line_deltas parse txt)) g)"
  by (simp only: process_chunk_def foldl_process_line line_deltas_def)

lemma read_loop_eq:
  "read_loop parse rid m chunks (ans, g) =
     (ans @ concat (deltas_of parse chunks),
      emit (partial_events rid m ans (deltas_of parse chunks)) g)"
  unfolding read_loop_def deltas_of_def
proof (induction chunks arbitrary: ans g)
  case Nil
  then show ?case by simp
next
  case (Cons c cs)
  show ?case
    by (simp only: foldl_Cons process_chunk_eq Cons.IH list.map concat.simps
                   partial_events_append emit_append concat_append append_assoc)
qed

lemma deltas_of_Nil [simp]: "deltas_of parse [] = []"
  by (simp add: deltas_of_def)

lemma gen_loop_Cons_fail:
  assumes "\<not> succeeds e m"
  shows "gen_loop e rid prompt (m # ms) g
     = gen_loop e rid prompt ms (g\<lparr>trace := trace g @ attempt_trace e rid prompt (mainWindow g) m\<rparr>)"
proof (cases "llm e m")
  case FetchThrows
  then show ?thesis
    by (simp add: attempt_trace_def attempt_events_def body_chunks_def perform_def)
next
  case (Response ok status body)
  show ?thesis
  proof (cases body)
    case None
    with Response show ?thesis
      by (simp add: attempt_trace_def attempt_events_def body_chunks_def perform_def)
  next
    case (Some b)
    obtain chunks fin where b: "b = (chunks, fin)" by (cases b)
    show ?thesis
    proof (cases ok)
      case False
      with Response Some b show ?thesis
        by (simp add: attempt_trace_def attempt_events_def body_chunks_def perform_def)
    next
      case True
      with assms Response Some b have fin: "fin = ReadThrows"
        by (cases fin) (simp_all add: succeeds_def)
      from True Response Some b fin show ?thesis
        by (simp add: attempt_trace_def attempt_events_def body_chunks_def read_loop_eq
                      emit_def perform_def)
    qed
  qed
qed

lemma gen_loop_Cons_ok:
  assumes "succeeds e m"
  shows "gen_loop e rid prompt (m # ms) g
     = (Some m, concat (deltas_of (json_parse e) (body_chunks e m)),
        g\<lparr>trace := trace g @ attempt_trace e rid prompt (mainWindow g) m\<rparr>)"
proof -
  from assms obtain status chunks where r: "llm e m = Response True status (Some (chunks, EndOfStream))"
    by (auto simp: succeeds_def split: fetch_response.splits option.splits prod.splits)
  then show ?thesis
    by (simp add: attempt_trace_def attempt_events_def body_chunks_def read_loop_eq
                  emit_def perform_def)
qed

lemma attempted_Cons:
  "attempted e (m # ms) = (if succeeds e m then [m] else m # attempted e ms)"
  by (simp add: attempted_def)

subsection \<open>Candidate models\<close>

lemma remdups_drop_seen: "d \<in> set B \<Longrightarrow> remdups (A @ d # B) = remdups (A @ B)"
  by (induction A) auto

lemma first_seen_distinct: "distinct xs \<Longrightarrow> first_seen xs = xs"
  by (simp add: first_seen_def distinct_remdups_id)

lemma push_missing_first_seen:
  "distinct cs \<Longrightarrow> push_missing cs ds = first_seen (cs @ ds)"
proof (induction ds arbitrary: cs)
  case Nil
  then show ?case by (simp add: first_seen_distinct)
next
  case (Cons d ds)
  show ?case
  proof (cases "d \<in> set cs")
    case True
    have "first_seen (cs @ d # ds) = first_seen (cs @ ds)"
      using True by (simp add: first_seen_def remdups_drop_seen)
    with Cons True show ?thesis by simp
  next
    case False
    with Cons.prems have "distinct (cs @ [d])" by simp
    from Cons.IH[OF this] False show ?thesis by simp
  qed
qed

lemma push_missing_filter:
  "distinct ds \<Longrightarrow> push_missing cs ds = cs @ filter (\<lambda>d. d \<notin> set cs) ds"
proof (induction ds arbitrary: cs)
  case Nil
  then show ?case by simp
next
  case (Cons d ds)
  then have nd: "d \<notin> set ds" and dd: "distinct ds" by simp_all
  have "filter (\<lambda>x. x \<notin> set (cs @ [d])) ds = filter (\<lambda>x. x \<notin> set cs) ds"
    using nd by (induction ds) auto
  with Cons.IH[OF dd] show ?case by simp
qed

lemma distinct_defaultModels: "distinct defaultModels"
  by (simp add: defaultModels_def)

lemma distinct_first_seen: "distinct (first_seen xs)"
  by (simp add: first_seen_def)

text \<open>
  C10. The candidate list is the request's model when one is given (a non-empty string),
  otherwise the preferred model when one is set, followed by the default models in their
  fixed order, with duplicates removed and the first occurrence kept: it is the chosen
  model followed by the defaults other than it, and no model occurs twice.
\<close>

theorem candidateModels_first_seen:
  "candidateModels override preferred =
     first_seen ((if js_truthy override then [the override]
                  else if js_truthy preferred then [the preferred] else []) @ defaultModels)
   \<and> candidateModels override preferred =
     (if js_truthy override then the override # filter (\<lambda>d. d \<noteq> the override) defaultModels
      else if js_truthy preferred then the preferred # filter (\<lambda>d. d \<noteq> the preferred) defaultModels
      else defaultModels)
   \<and> distinct (candidateModels override preferred)"
proof -
  let ?chosen = "if js_truthy override then [the override]
                 else if js_truthy preferred then [the preferred] else []"
  have d: "distinct ?chosen" by simp
  have 1: "candidateModels override preferred = first_seen (?chosen @ defaultModels)"
    unfolding candidateModels_def by (rule push_missing_first_seen[OF d])
  have 2: "candidateModels override preferred = ?chosen @ filter (\<lambda>d. d \<notin> set ?chosen) defaultModels"
    unfolding candidateModels_def by (rule push_missing_filter[OF distinct_defaultModels])
  have 3: "distinct (candidateModels override preferred)"
    by (simp only: 1 distinct_first_seen)
  from 2 have two: "candidateModels override preferred =
     (if js_truthy override then the override # filter (\<lambda>d. d \<noteq> the override) defaultModels
      else if js_truthy preferred then the preferred # filter (\<lambda>d. d \<noteq> the preferred) defaultModels
      else defaultModels)"
    by (simp split: if_splits)
  from 1 two 3 show ?thesis by blast
qed

theorem candidateModels_first_seen_witness:
  "candidateModels (Some ''llama3'') (Some ''custom'') =
     [''llama3'', ''phi3:latest'', ''mistral:latest'', ''gemma3:12b-it-qat'']
   \<and> candidateModels None (Some ''custom'') =
     [''custom'', ''phi3:latest'', ''mistral:latest'', ''llama3'', ''gemma3:12b-it-qat'']
   \<and> candidateModels (Some []) None = defaultModels"
  using candidateModels_first_seen [of "Some ''llama3''" "Some ''custom''"]
        candidateModels_first_seen [of None "Some ''custom''"]
        candidateModels_first_seen [of "Some []" None]
  by (simp add: js_truthy_def defaultModels_def first_seen_def)

subsection \<open>The history section of the prompt\<close>

lemma length_snippet: "length (snippet t) = length (turn_q t) + length (turn_a t) + 9"
  by (simp add: snippet_def)
lemma length_block: "length (block t) = length (turn_q t) + length (turn_a t) + 7"
  by (simp add: block_def)

lemma length_join_blocks:
  "ts \<noteq> [] \<Longrightarrow> length (join [newline, newline] (map block ts)) + 2 = sum_list (map (length \<circ> snippet) ts)"
  by (induction ts rule: induct_list012) (simp_all add: length_snippet length_block)

lemma select_turns_take:
  "take (length (select_turns limit tot xs)) xs = select_turns limit tot xs"
  by (induction xs arbitrary: tot) (simp_all add: Let_def)

lemma select_turns_sum:
  "tot \<le> limit \<Longrightarrow> tot + sum_list (map (length \<circ> snippet) (select_turns limit tot xs)) \<le> limit"
proof (induction xs arbitrary: tot)
  case Nil
  then show ?case by simp
next
  case (Cons x xs)
  show ?case
  proof (cases "limit < tot + length (snippet x)")
    case True
    with Cons.prems show ?thesis by simp
  next
    case False
    then have "tot + length (snippet x) \<le> limit" by simp
    from Cons.IH[OF this] False show ?thesis by (simp add: Let_def add.assoc)
  qed
qed

lemma select_turns_stop:
  "length (select_turns limit tot xs) < length xs \<Longrightarrow>
   limit < tot + sum_list (map (length \<circ> snippet) (select_turns limit tot xs))
             + length (snippet (xs ! length (select_turns limit tot xs)))"
proof (induction xs arbitrary: tot)
  case Nil
  then show ?case by simp
next
  case (Cons x xs)
  show ?case
  proof (cases "limit < tot + length (snippet x)")
    case True
    then show ?thesis by simp
  next
    case False
    with Cons.prems have "length (select_turns limit (tot + length (snippet x)) xs) < length xs"
      by (simp add: Let_def)
    from Cons.IH[OF this] False show ?thesis by (simp add: Let_def add.assoc)
  qed
qed

lemma length_historySection:
  "length (historySection limit enabled history)
     = (if enabled \<and> select_turns limit 0 (rev history) \<noteq> []
        then length history_header + sum_list (map (length \<circ> snippet) (select_turns limit 0 (rev history)))
        else 0)"
proof (cases "enabled \<and> select_turns limit 0 (rev history) \<noteq> []")
  case True
  let ?sel = "select_turns limit 0 (rev history)"
  from True have ne: "rev ?sel \<noteq> []" by simp
  from True have hist: "history \<noteq> []" by auto
  have "historySection limit enabled history
          = history_header @ join [newline, newline] (map block (rev ?sel)) @ [newline, newline]"
    using True hist by (simp add: historySection_def Let_def)
  then have "length (historySection limit enabled history)
          = length history_header + (length (join [newline, newline] (map block (rev ?sel))) + 2)"
    by simp
  also have "\<dots> = length history_header + sum_list (map (length \<circ> snippet) (rev ?sel))"
    by (simp only: length_join_blocks[OF ne])
  also have "sum_list (map (length \<circ> snippet) (rev ?sel)) = sum_list (map (length \<circ> snippet) ?sel)"
    by (metis rev_map sum_list_rev)
  finally show ?thesis using True by simp
next
  case False
  then show ?thesis by (auto simp: historySection_def Let_def)
qed

lemma select_turns_zero: "select_turns 0 0 xs = []"
  by (cases xs) (simp_all add: Let_def length_snippet)

lemma select_turns_newest_too_long:
  "xs = [] \<or> limit < length (snippet (hd xs)) \<Longrightarrow> select_turns limit 0 xs = []"
  by (cases xs) (auto simp: Let_def)

text \<open>
  C4. The loop selects a prefix of the history read from the newest turn backwards: the
  selected turns are the newest \<open>k\<close> ones, the lengths of their snippets add up to at
  most the budget, and the turn after them, if there is one, would exceed it. The section
  is the header, the blocks of the selected turns in chronological order joined by two
  newlines, and two newlines; it is never longer than the budget plus the header; it is
  empty for the budget 0 and whenever the newest turn alone does not fit.
\<close>

theorem historySection_window:
  "select_turns limit 0 (rev history)
     = take (length (select_turns limit 0 (rev history))) (rev history)
   \<and> rev (select_turns limit 0 (rev history))
     = drop (length history - length (select_turns limit 0 (rev history))) history
   \<and> sum_list (map (length \<circ> snippet) (select_turns limit 0 (rev history))) \<le> limit
   \<and> (length (select_turns limit 0 (rev history)) < length history \<longrightarrow>
        limit < sum_list (map (length \<circ> snippet) (select_turns limit 0 (rev history)))
                 + length (snippet (rev history ! length (select_turns limit 0 (rev history)))))
   \<and> historySection limit enabled history
     = (if enabled \<and> select_turns limit 0 (rev history) \<noteq> []
        then history_header
             @ join [newline, newline] (map block (rev (select_turns limit 0 (rev history))))
             @ [newline, newline]
        else [])
   \<and> length (historySection limit enabled history) \<le> limit + length history_header
   \<and> historySection 0 enabled history = []
   \<and> (history = [] \<or> limit < length (snippet (last history)) \<longrightarrow>
        historySection limit enabled history = [])"
proof -
  let ?sel = "select_turns limit 0 (rev history)"
  have a: "?sel = take (length ?sel) (rev history)"
    by (rule select_turns_take[symmetric])
  have b: "rev ?sel = drop (length history - length ?sel) history"
  proof -
    have "rev ?sel = rev (take (length ?sel) (rev history))" using a by simp
    then show ?thesis by (simp add: rev_take)
  qed
  have c: "sum_list (map (length \<circ> snippet) ?sel) \<le> limit"
    using select_turns_sum[of 0 limit "rev history"] by simp
  have d: "length ?sel < length history \<longrightarrow>
        limit < sum_list (map (length \<circ> snippet) ?sel) + length (snippet (rev history ! length ?sel))"
    using select_turns_stop[of limit 0 "rev history"] by simp
  have e: "historySection limit enabled history
     = (if enabled \<and> ?sel \<noteq> []
        then history_header @ join [newline, newline] (map block (rev ?sel)) @ [newline, newline]
        else [])"
    by (auto simp: historySection_def Let_def)
  have f: "length (historySection limit enabled history) \<le> limit + length history_header"
    using c by (simp add: length_historySection)
  have g: "historySection 0 enabled history = []"
    by (simp add: historySection_def select_turns_zero)
  have h: "history = [] \<or> limit < length (snippet (last history)) \<longrightarrow>
        historySection limit enabled history = []"
    using select_turns_newest_too_long[of "rev history" limit]
    by (auto simp: historySection_def hd_rev)
  show ?thesis by (intro conjI) (fact a b c d e f g h)+
qed

theorem historySection_window_witness:
  "historySection 20 True [turn_one, turn_two]
     = history_header @ ''Q: hi'' @ [newline] @ ''A: yo'' @ [newline, newline]
   \<and> length (historySection 20 True [turn_one, turn_two]) \<le> 20 + length history_header
   \<and> historySection 12 True [turn_one, turn_two] = []"
  using historySection_window [of 20 "[turn_one, turn_two]" True]
        historySection_window [of 12 "[turn_one, turn_two]" True]
  by (simp add: turn_one_def turn_two_def snippet_def block_def Let_def)

subsection \<open>The runs of the handler\<close>

lemma gen_loop_find:
  "gen_loop e rid prompt ms g =
     (find (succeeds e) ms,
      case find (succeeds e) ms of None \<Rightarrow> [] | Some m \<Rightarrow> streamed e m,
      g\<lparr>trace := trace g
             @ concat (map (attempt_trace e rid prompt (mainWindow g)) (attempted e ms))\<rparr>)"
proof (induction ms arbitrary: g)
  case Nil
  then show ?case by (simp add: attempted_def)
next
  case (Cons m ms)
  show ?case
  proof (cases "succeeds e m")
    case True
    then show ?thesis
      by (simp add: gen_loop_Cons_ok attempted_Cons streamed_def del: gen_loop.simps)
  next
    case False
    then show ?thesis
      by (simp add: gen_loop_Cons_fail Cons.IH attempted_Cons del: gen_loop.simps)
  qed
qed

lemma set_push_missing: "set (push_missing cs ds) = set cs \<union> set ds"
  by (induction ds arbitrary: cs) auto

lemma candidateModels_nonempty:
  "m \<in> set (candidateModels override preferred) \<Longrightarrow> m \<noteq> []"
  by (auto simp: candidateModels_def set_push_missing js_truthy_def defaultModels_def
           split: if_splits option.splits)

lemma find_in_set: "find P xs = Some x \<Longrightarrow> x \<in> set xs \<and> P x"
  by (induction xs) (auto split: if_splits)

lemma seg_entry_generates:
  "generates e ar g \<Longrightarrow>
   seg_entry e ar g =
     (Inr (), perform (PostTranscribe (js_or (case arg_language ar of Some l \<Rightarrow> l | None \<Rightarrow> []) ''en''))
                (send (Status ''stt'' None None)
                   (perform (WriteFile (startTs e) (the (arg_buffer ar))) g)))"
  by (auto simp: generates_def seg_entry_eq Let_def)

lemma seg_entry_fails:
  "\<not> voiceStreamingActive g \<Longrightarrow> \<not> generates e ar g \<Longrightarrow> transcription_of (stt e) \<noteq> [] \<Longrightarrow>
   \<exists>err g1. seg_entry e ar g = (Inl err, g1)"
  by (auto simp: generates_def seg_entry_eq Let_def split: option.splits)

lemma seg_prompt_generates:
  "transcription_of (stt e) \<noteq> [] \<Longrightarrow>
   seg_prompt e ar g =
     (Inr (transcription_of (stt e), (startTs e, rand e), promptBase g (transcription_of (stt e)),
           candidateModels (arg_model ar) (voicePreferredModel g)),
      send (Status ''llm'' (Some (transcription_of (stt e))) (Some (startTs e, rand e)))
        (send (Status ''llm'' (Some (transcription_of (stt e))) None) g))"
  by (cases "stt e") (simp_all add: seg_prompt_def transcription_of_def Let_def promptBase_def)

lemma seg_prompt_fails:
  "transcription_of (stt e) = [] \<Longrightarrow>
   seg_prompt e ar g =
     (Inl (Error (case stt e of SttThrows \<Rightarrow> ''Transcription failed''
                  | SttData x y z \<Rightarrow> ''Empty transcription result'')), g)"
  by (cases "stt e") (simp_all add: seg_prompt_def transcription_of_def Let_def)

lemma handler_rejects:
  "voiceStreamingActive g \<Longrightarrow> handler e ar g = (Failure ''Another voice request in progress'', g)"
  by (simp add: handler_eq)

lemma conclude_None:
  "conclude e tr rid None answer g = (Inl (Error ''LLM generation failed for all models''), g)"
  by (simp add: conclude_def)

lemma conclude_Some:
  "m \<noteq> [] \<Longrightarrow>
   conclude e tr rid (Some m) answer g =
     (Inr (Success tr (final_answer answer) m rid),
      send (Result tr (final_answer answer) m rid)
        (if voiceHistoryEnabled g
         then g\<lparr>voiceHistory :=
                push_turn \<lparr>turn_q = tr, turn_a = final_answer answer, turn_ts = pushTs e\<rparr> (voiceHistory g)\<rparr>
         else g))"
  by (simp add: conclude_def final_answer_def Let_def)

text \<open>The state in which the handler leaves the loop over the candidates.\<close>

lemma handler_generates:
  assumes gen: "generates e ar g"
  shows "handler e ar g =
    (case gen_loop e (startTs e, rand e) (promptBase g (transcription_of (stt e)))
            (candidateModels (arg_model ar) (voicePreferredModel g))
            ((snd (seg_prompt e ar (snd (seg_entry e ar g))))\<lparr>voiceStreamingActive := True\<rparr>) of
       (usedModel, answer, g3) \<Rightarrow>
         (case conclude e (transcription_of (stt e)) (startTs e, rand e) usedModel answer
                 (g3\<lparr>voiceStreamingActive := False\<rparr>) of
            (Inl err, g4) \<Rightarrow> catch_top err g4
          | (Inr r, g4) \<Rightarrow> (r, g4)))"
proof -
  from gen have nf: "\<not> voiceStreamingActive g" and tr: "transcription_of (stt e) \<noteq> []"
    by (simp_all add: generates_def)
  show ?thesis
    by (simp add: handler_eq nf seg_entry_generates[OF gen] seg_prompt_generates[OF tr] promptBase_def)
qed

lemma seg_entry_fields [simp]:
  "voiceContext (snd (seg_entry e ar g)) = voiceContext g"
  "voiceStreamingActive (snd (seg_entry e ar g)) = voiceStreamingActive g"
  "voicePreferredModel (snd (seg_entry e ar g)) = voicePreferredModel g"
  "voiceHistory (snd (seg_entry e ar g)) = voiceHistory g"
  "voiceHistoryEnabled (snd (seg_entry e ar g)) = voiceHistoryEnabled g"
  "mainWindow (snd (seg_entry e ar g)) = mainWindow g"
  by (simp_all add: seg_entry_eq Let_def split: option.splits)

lemma seg_write_fields [simp]:
  "voiceContext (snd (seg_write e ar g)) = voiceContext g"
  "voiceStreamingActive (snd (seg_write e ar g)) = voiceStreamingActive g"
  "voicePreferredModel (snd (seg_write e ar g)) = voicePreferredModel g"
  "voiceHistory (snd (seg_write e ar g)) = voiceHistory g"
  "voiceHistoryEnabled (snd (seg_write e ar g)) = voiceHistoryEnabled g"
  "mainWindow (snd (seg_write e ar g)) = mainWindow g"
  by (simp_all add: seg_write_def split: option.splits)

lemma seg_axios_state [simp]: "snd (seg_axios e ar g) = g"
  by (simp add: seg_axios_def split: option.splits)

lemma seg_form_fields [simp]:
  "voiceContext (snd (seg_form e ar g)) = voiceContext g"
  "voiceStreamingActive (snd (seg_form e ar g)) = voiceStreamingActive g"
  "voicePreferredModel (snd (seg_form e ar g)) = voicePreferredModel g"
  "voiceHistory (snd (seg_form e ar g)) = voiceHistory g"
  "voiceHistoryEnabled (snd (seg_form e ar g)) = voiceHistoryEnabled g"
  "mainWindow (snd (seg_form e ar g)) = mainWindow g"
  by (simp_all add: seg_form_def)

lemma seg_prompt_fields [simp]:
  "voiceContext (snd (seg_prompt e ar g)) = voiceContext g"
  "voiceStreamingActive (snd (seg_prompt e ar g)) = voiceStreamingActive g"
  "voicePreferredModel (snd (seg_prompt e ar g)) = voicePreferredModel g"
  "voiceHistory (snd (seg_prompt e ar g)) = voiceHistory g"
  "voiceHistoryEnabled (snd (seg_prompt e ar g)) = voiceHistoryEnabled g"
  "mainWindow (snd (seg_prompt e ar g)) = mainWindow g"
  by (simp_all add: seg_prompt_def Let_def split: stt_response.splits)

lemma catch_top_fields [simp]:
  "voiceContext (snd (catch_top err g)) = voiceContext g"
  "voiceStreamingActive (snd (catch_top err g)) = False"
  "voicePreferredModel (snd (catch_top err g)) = voicePreferredModel g"
  "voiceHistory (snd (catch_top err g)) = voiceHistory g"
  "voiceHistoryEnabled (snd (catch_top err g)) = voiceHistoryEnabled g"
  "mainWindow (snd (catch_top err g)) = mainWindow g"
  by (cases err; simp add: Let_def)+

lemma catch_top_result:
  "fst (catch_top err g) = Failure (case err of Error message \<Rightarrow> js_or message ''Voice processing failed'')"
  by (cases err) (simp add: Let_def)

lemma catch_top_trace:
  "trace (snd (catch_top err g)) =
     trace g @ (if mainWindow g
                then [Send (ErrorEv (case err of Error message \<Rightarrow> js_or message ''Voice processing failed''))]
                else [])"
  by (cases err) (simp add: Let_def send_def)

text \<open>A run that does not get to the loop over the candidates ends in the \<open>catch\<close> block.\<close>

lemma handler_early:
  assumes nf: "\<not> voiceStreamingActive g" and ng: "\<not> generates e ar g"
  shows "handler e ar g =
    (case fst (seg_entry e ar g) of
       Inl err \<Rightarrow> catch_top err (snd (seg_entry e ar g))
     | Inr u \<Rightarrow> catch_top (Error (case stt e of SttThrows \<Rightarrow> ''Transcription failed''
                                   | SttData x y z \<Rightarrow> ''Empty transcription result''))
                 (snd (seg_entry e ar g)))"
proof (cases "seg_entry e ar g")
  case (Pair r g1)
  show ?thesis
  proof (cases r)
    case (Inl err)
    with Pair nf show ?thesis by (simp add: handler_eq)
  next
    case (Inr u)
    have "transcription_of (stt e) = []"
    proof (rule ccontr)
      assume ne: "transcription_of (stt e) \<noteq> []"
      from seg_entry_fails[OF nf ng ne] Pair Inr show False by simp
    qed
    from seg_prompt_fails[OF this] Pair Inr nf show ?thesis by (simp add: handler_eq)
  qed
qed

text \<open>A run that gets to the loop: its result and the state it leaves.\<close>

lemma handler_generates_none:
  assumes gen: "generates e ar g"
    and none: "find (succeeds e) (candidateModels (arg_model ar) (voicePreferredModel g)) = None"
  shows "handler e ar g =
    catch_top (Error ''LLM generation failed for all models'') (left_loop e ar g)"
  by (simp add: handler_generates[OF gen] gen_loop_find none conclude_None left_loop_def
           del: catch_top.simps)

lemma handler_generates_some:
  assumes gen: "generates e ar g"
    and some: "find (succeeds e) (candidateModels (arg_model ar) (voicePreferredModel g)) = Some m"
  shows "handler e ar g =
    (Success (transcription_of (stt e)) (final_answer (streamed e m)) m (startTs e, rand e),
     send (Result (transcription_of (stt e)) (final_answer (streamed e m)) m (startTs e, rand e))
      (if voiceHistoryEnabled g
       then (left_loop e ar g)
              \<lparr>voiceHistory :=
                 push_turn \<lparr>turn_q = transcription_of (stt e), turn_a = final_answer (streamed e m),
                             turn_ts = pushTs e\<rparr> (voiceHistory g)\<rparr>
       else left_loop e ar g))"
proof -
  from find_in_set[OF some] have "m \<noteq> []" by (blast dest: candidateModels_nonempty)
  then show ?thesis
    by (simp add: handler_generates[OF gen] gen_loop_find some conclude_Some left_loop_def)
qed

lemma left_loop_fields [simp]:
  "voiceContext (left_loop e ar g) = voiceContext g"
  "voiceStreamingActive (left_loop e ar g) = False"
  "voicePreferredModel (left_loop e ar g) = voicePreferredModel g"
  "voiceHistory (left_loop e ar g) = voiceHistory g"
  "voiceHistoryEnabled (left_loop e ar g) = voiceHistoryEnabled g"
  "mainWindow (left_loop e ar g) = mainWindow g"
  by (simp_all add: left_loop_def)

subsection \<open>The history after a run\<close>

lemma handler_history:
  "voiceHistory (snd (handler e ar g)) =
     (case fst (handler e ar g) of
        Success question answer m rid \<Rightarrow>
          (if voiceHistoryEnabled g
           then push_turn \<lparr>turn_q = question, turn_a = answer, turn_ts = pushTs e\<rparr> (voiceHistory g)
           else voiceHistory g)
      | Failure msg \<Rightarrow> voiceHistory g)"
proof (cases "voiceStreamingActive g")
  case True
  then show ?thesis by (simp add: handler_rejects)
next
  case nf: False
  show ?thesis
  proof (cases "generates e ar g")
    case False
    show ?thesis
      by (simp add: handler_early[OF nf False] catch_top_result del: catch_top.simps split: sum.split)
  next
    case gen: True
    show ?thesis
    proof (cases "find (succeeds e) (candidateModels (arg_model ar) (voicePreferredModel g))")
      case None
      show ?thesis
        by (simp add: handler_generates_none[OF gen None] catch_top_result del: catch_top.simps)
    next
      case (Some m)
      show ?thesis
        by (simp add: handler_generates_some[OF gen Some])
    qed
  qed
qed

lemma handler_answer:
  "fst (handler e ar g) = Success question answer m rid \<Longrightarrow>
   answer = final_answer (streamed e m) \<and> answer \<noteq> []"
proof (cases "voiceStreamingActive g")
  case True
  assume "fst (handler e ar g) = Success question answer m rid"
  with True show ?thesis by (simp add: handler_rejects)
next
  case nf: False
  assume s: "fst (handler e ar g) = Success question answer m rid"
  show ?thesis
  proof (cases "generates e ar g")
    case False
    from s show ?thesis
      by (simp add: handler_early[OF nf False] catch_top_result del: catch_top.simps split: sum.splits)
  next
    case gen: True
    show ?thesis
    proof (cases "find (succeeds e) (candidateModels (arg_model ar) (voicePreferredModel g))")
      case None
      from s show ?thesis
        by (simp add: handler_generates_none[OF gen None] catch_top_result del: catch_top.simps)
    next
      case (Some m')
      from s show ?thesis
        by (auto simp: handler_generates_some[OF gen Some] final_answer_def)
    qed
  qed
qed

text \<open>
  C7, as amended. After a run of the handler the history is the old history with the turn
  \<open>{q, a, ts}\<close> of the run pushed and the oldest turns trimmed if the run succeeded and
  the history is enabled, and it is the old history otherwise: after a failed run, and
  after a successful run while the history is disabled. The answer of a successful run is
  never empty: it is the text streamed by the reported model, or the placeholder
  \<open>No answer generated.\<close> when that text is empty.
\<close>

theorem history_appended_on_success:
  "voiceHistory (snd (handler e ar g)) =
     (case fst (handler e ar g) of
        Success question answer m rid \<Rightarrow>
          (if voiceHistoryEnabled g
           then push_turn \<lparr>turn_q = question, turn_a = answer, turn_ts = pushTs e\<rparr> (voiceHistory g)
           else voiceHistory g)
      | Failure msg \<Rightarrow> voiceHistory g)
   \<and> (case fst (handler e ar g) of
        Success question answer m rid \<Rightarrow>
          answer \<noteq> [] \<and>
          answer = (if streamed e m = [] then ''No answer generated.'' else streamed e m)
      | Failure msg \<Rightarrow> True)"
proof -
  have ans: "case fst (handler e ar g) of
        Success question answer m rid \<Rightarrow>
          answer \<noteq> [] \<and>
          answer = (if streamed e m = [] then ''No answer generated.'' else streamed e m)
      | Failure msg \<Rightarrow> True"
    using handler_answer[of e ar g]
    by (cases "fst (handler e ar g)") (simp_all add: final_answer_def)
  show ?thesis by (rule conjI[OF handler_history ans])
qed

lemma deltas_of_toy_body_ab: "deltas_of toy_parse body_ab = [''a'', ''b'']"
  by (simp add: deltas_of_def line_deltas_def lines_of_def body_ab_def js_trim_def is_space_def
                newline_def toy_parse_def)

lemma succeeds_third:
  "succeeds env_third m = (m \<noteq> ''phi3:latest'' \<and> m \<noteq> ''mistral:latest'')"
  by (simp add: succeeds_def env_third_def llm_third_def)

lemma streamed_third:
  "m \<noteq> ''phi3:latest'' \<Longrightarrow> m \<noteq> ''mistral:latest'' \<Longrightarrow> streamed env_third m = ''ab''"
  by (simp add: streamed_def body_chunks_def env_third_def llm_third_def deltas_of_toy_body_ab)

lemma find_third:
  "find (succeeds env_third) (candidateModels None None) = Some ''llama3''"
  by (simp add: candidateModels_def js_truthy_def defaultModels_def succeeds_third)

lemma generates_third:
  "\<not> voiceStreamingActive g \<Longrightarrow> generates env_third args_audio g"
  by (simp add: generates_def env_third_def args_audio_def transcription_of_def js_or_def)

lemma handler_third_disabled:
  "fst (handler env_third args_audio (set_history_enabled False (initial_state True)))
     = Success ''what is up'' ''ab'' ''llama3'' (100, ''k3x9ab'')"
proof -
  let ?g = "set_history_enabled False (initial_state True)"
  have nf: "\<not> voiceStreamingActive ?g" by (simp add: set_history_enabled_def initial_state_def)
  have f: "find (succeeds env_third) (candidateModels (arg_model args_audio) (voicePreferredModel ?g)) = Some ''llama3''"
    by (simp add: args_audio_def set_history_enabled_def initial_state_def find_third)
  show ?thesis
    by (simp add: handler_generates_some[OF generates_third[OF nf] f] streamed_third final_answer_def)
       (simp add: env_third_def transcription_of_def js_or_def)
qed

text \<open>
  C7 as stated fails while the history is disabled: the run below succeeds with the
  answer \<open>ab\<close> and leaves the history as it was.
\<close>

theorem history_not_appended_counterexample:
  "fst (handler env_third args_audio (set_history_enabled False (initial_state True)))
     = Success ''what is up'' ''ab'' ''llama3'' (100, ''k3x9ab'')
   \<and> voiceHistory (snd (handler env_third args_audio (set_history_enabled False (initial_state True))))
     = voiceHistory (set_history_enabled False (initial_state True))"
  using handler_history[of env_third args_audio "set_history_enabled False (initial_state True)"]
  by (simp add: handler_third_disabled) (simp add: set_history_enabled_def)

theorem history_appended_on_success_witness:
  "voiceHistory (snd (handler env_third args_audio (initial_state True)))
     = [\<lparr>turn_q = ''what is up'', turn_a = ''ab'', turn_ts = 200\<rparr>]"
proof -
  let ?g = "initial_state True"
  have nf: "\<not> voiceStreamingActive ?g" by (simp add: initial_state_def)
  have f: "find (succeeds env_third) (candidateModels (arg_model args_audio) (voicePreferredModel ?g)) = Some ''llama3''"
    by (simp add: args_audio_def initial_state_def find_third)
  have r: "fst (handler env_third args_audio ?g) = Success ''what is up'' ''ab'' ''llama3'' (100, ''k3x9ab'')"
    by (simp add: handler_generates_some[OF generates_third[OF nf] f] streamed_third final_answer_def)
       (simp add: env_third_def transcription_of_def js_or_def)
  show ?thesis
    using history_appended_on_success[of env_third args_audio ?g]
    by (simp add: r) (simp add: initial_state_def push_turn_def VOICE_HISTORY_MAX_TURNS_def env_third_def)
qed

subsection \<open>The bound on the history\<close>

lemma length_push_turn: "length (push_turn t h) \<le> VOICE_HISTORY_MAX_TURNS"
  unfolding push_turn_def Let_def by (simp split: if_splits) arith

lemma push_turn_newest:
  "push_turn t (newest VOICE_HISTORY_MAX_TURNS ts) = newest VOICE_HISTORY_MAX_TURNS (ts @ [t])"
proof (cases "15 \<le> length ts")
  case True
  then have "Suc (length ts - 15) = length ts - 14" by arith
  with True show ?thesis
    by (simp add: push_turn_def newest_def Let_def VOICE_HISTORY_MAX_TURNS_def)
next
  case False
  then show ?thesis
    by (simp add: push_turn_def newest_def Let_def VOICE_HISTORY_MAX_TURNS_def)
qed

lemma handler_fields [simp]:
  "voiceHistoryEnabled (snd (handler e ar g)) = voiceHistoryEnabled g"
  "voicePreferredModel (snd (handler e ar g)) = voicePreferredModel g"
  "voiceContext (snd (handler e ar g)) = voiceContext g"
  "mainWindow (snd (handler e ar g)) = mainWindow g"
  "voiceStreamingActive (snd (handler e ar g)) = voiceStreamingActive g"
proof -
  have "voiceHistoryEnabled (snd (handler e ar g)) = voiceHistoryEnabled g
      \<and> voicePreferredModel (snd (handler e ar g)) = voicePreferredModel g
      \<and> voiceContext (snd (handler e ar g)) = voiceContext g
      \<and> mainWindow (snd (handler e ar g)) = mainWindow g
      \<and> voiceStreamingActive (snd (handler e ar g)) = voiceStreamingActive g"
  proof (cases "voiceStreamingActive g")
    case True
    then show ?thesis by (simp add: handler_rejects)
  next
    case nf: False
    show ?thesis
    proof (cases "generates e ar g")
      case False
      show ?thesis
        by (simp add: handler_early[OF nf False] nf del: catch_top.simps split: sum.split)
    next
      case gen: True
      show ?thesis
      proof (cases "find (succeeds e) (candidateModels (arg_model ar) (voicePreferredModel g))")
        case None
        show ?thesis
          by (simp add: handler_generates_none[OF gen None] nf del: catch_top.simps)
      next
        case (Some m)
        show ?thesis
          by (simp add: handler_generates_some[OF gen Some] nf)
      qed
    qed
  qed
  then show
    "voiceHistoryEnabled (snd (handler e ar g)) = voiceHistoryEnabled g"
    "voicePreferredModel (snd (handler e ar g)) = voicePreferredModel g"
    "voiceContext (snd (handler e ar g)) = voiceContext g"
    "mainWindow (snd (handler e ar g)) = mainWindow g"
    "voiceStreamingActive (snd (handler e ar g)) = voiceStreamingActive g"
    by simp_all
qed

lemma handle_all_newest:
  "voiceHistoryEnabled g \<Longrightarrow> voiceHistory g = newest VOICE_HISTORY_MAX_TURNS ts \<Longrightarrow>
   voiceHistory (snd (handle_all reqs g))
     = newest VOICE_HISTORY_MAX_TURNS (ts @ turns_of (zip (fst (handle_all reqs g)) (map fst reqs)))"
proof (induction reqs arbitrary: g ts)
  case Nil
  then show ?case by simp
next
  case (Cons req reqs)
  obtain e ar where req: "req = (e, ar)" by (cases req)
  let ?g1 = "snd (handler e ar g)"
  have en: "voiceHistoryEnabled ?g1" using Cons.prems(1) by simp
  show ?case
  proof (cases "fst (handler e ar g)")
    case (Success question answer m rid)
    let ?t = "\<lparr>turn_q = question, turn_a = answer, turn_ts = pushTs e\<rparr>"
    have h: "voiceHistory ?g1 = newest VOICE_HISTORY_MAX_TURNS (ts @ [?t])"
      using handler_history[of e ar g] Success Cons.prems by (simp add: push_turn_newest)
    from Cons.IH[OF en h] Success req show ?thesis
      by (simp add: split_beta)
  next
    case (Failure msg)
    have h: "voiceHistory ?g1 = newest VOICE_HISTORY_MAX_TURNS ts"
      using handler_history[of e ar g] Failure Cons.prems by simp
    from Cons.IH[OF en h] Failure req show ?thesis
      by (simp add: split_beta)
  qed
qed

lemma length_handle_all: "length (fst (handle_all reqs g)) = length reqs"
proof (induction reqs arbitrary: g)
  case Nil
  then show ?case by simp
next
  case (Cons req reqs)
  obtain e ar where "req = (e, ar)" by (cases req)
  with Cons.IH show ?case by (simp add: split_beta)
qed

lemma length_turns_of_success:
  "length rs = length es \<Longrightarrow> \<forall>r\<in>set rs. is_success r \<Longrightarrow> length (turns_of (zip rs es)) = length rs"
proof (induction rs es rule: list_induct2)
  case Nil
  then show ?case by simp
next
  case (Cons r rs e es)
  then show ?case by (cases r) simp_all
qed

lemma start_history [simp]: "voiceHistory (snd (start e ar g)) = voiceHistory g"
  by (simp add: start_def split_beta del: catch_top.simps split: sum.split)

lemma finish_history_le:
  "length (voiceHistory g) \<le> VOICE_HISTORY_MAX_TURNS \<Longrightarrow>
   length (voiceHistory (snd (finish e tr rid used answer g))) \<le> VOICE_HISTORY_MAX_TURNS"
  by (cases used)
     (auto simp: finish_def conclude_def Let_def length_push_turn split_beta
           simp del: catch_top.simps)

lemma next_fetch_history_le:
  "length (voiceHistory g) \<le> VOICE_HISTORY_MAX_TURNS \<Longrightarrow>
   length (voiceHistory (snd (next_fetch e tr rid prompt ms g))) \<le> VOICE_HISTORY_MAX_TURNS"
  by (cases ms) (simp_all add: next_fetch_def finish_history_le)

lemma resume_history_le:
  "length (voiceHistory g) \<le> VOICE_HISTORY_MAX_TURNS \<Longrightarrow>
   length (voiceHistory (snd (resume e ar p g))) \<le> VOICE_HISTORY_MAX_TURNS"
proof (cases p)
  case Importing
  assume "length (voiceHistory g) \<le> VOICE_HISTORY_MAX_TURNS"
  with Importing show ?thesis
    by (simp add: split_beta del: catch_top.simps split: sum.split)
next
  case ImportingForm
  assume "length (voiceHistory g) \<le> VOICE_HISTORY_MAX_TURNS"
  with ImportingForm show ?thesis
    by (simp add: split_beta del: catch_top.simps split: sum.split)
next
  case Transcribing
  assume le: "length (voiceHistory g) \<le> VOICE_HISTORY_MAX_TURNS"
  obtain r g1 where pr: "seg_prompt e ar g = (r, g1)" by (cases "seg_prompt e ar g")
  then have h: "voiceHistory g1 = voiceHistory g"
    by (metis seg_prompt_fields(4) snd_conv)
  show ?thesis
  proof (cases r)
    case (Inl err)
    with Transcribing pr h le show ?thesis by (simp add: split_beta del: catch_top.simps)
  next
    case (Inr v)
    obtain tr rid prompt cands where "v = (tr, rid, prompt, cands)" by (cases v) auto
    with Transcribing pr Inr h le show ?thesis by (simp add: next_fetch_history_le)
  qed
next
  case (Fetching transcription requestId prompt m rest)
  assume "length (voiceHistory g) \<le> VOICE_HISTORY_MAX_TURNS"
  with Fetching show ?thesis
    by (auto simp: next_fetch_history_le split: fetch_response.split option.split)
next
  case (Reading transcription requestId prompt m rest chunks fin answer)
  assume le: "length (voiceHistory g) \<le> VOICE_HISTORY_MAX_TURNS"
  show ?thesis
  proof (cases chunks)
    case Nil
    with Reading le show ?thesis
      by (cases fin) (simp_all add: next_fetch_history_le finish_history_le)
  next
    case (Cons c cs)
    with Reading le show ?thesis by (simp add: process_chunk_eq)
  qed
next
  case (Finished r)
  assume "length (voiceHistory g) \<le> VOICE_HISTORY_MAX_TURNS"
  with Finished show ?thesis by simp
qed

lemma sys_step_history_le:
  "length (voiceHistory (fst s)) \<le> VOICE_HISTORY_MAX_TURNS \<Longrightarrow>
   length (voiceHistory (fst (sys_step s op))) \<le> VOICE_HISTORY_MAX_TURNS"
proof (cases s)
  case (Pair g ts)
  assume "length (voiceHistory (fst s)) \<le> VOICE_HISTORY_MAX_TURNS"
  with Pair have le: "length (voiceHistory g) \<le> VOICE_HISTORY_MAX_TURNS" by simp
  show ?thesis
  proof (cases op)
    case (Invoke e ar)
    with Pair le show ?thesis by (simp add: split_beta)
  next
    case (Resume i)
    with Pair le resume_history_le[OF le] show ?thesis by (simp add: split_beta)
  qed (use Pair le in \<open>simp_all add: set_context_def set_model_def clear_history_def
         set_history_enabled_def resetAll_def\<close>)
qed

lemma sys_run_history_le:
  "length (voiceHistory (fst s)) \<le> VOICE_HISTORY_MAX_TURNS \<Longrightarrow>
   length (voiceHistory (fst (sys_run s ops))) \<le> VOICE_HISTORY_MAX_TURNS"
  unfolding sys_run_def
  by (induction ops arbitrary: s) (simp_all add: sys_step_history_le)

text \<open>
  C3. In every state that the module reaches from its start, whichever handlers run and
  however the runs of the voice handler are interleaved, the history holds at most 15
  turns. When requests are handled one after the other, starting with the history enabled
  and empty, the history afterwards consists of the newest 15 of the turns of the
  successful requests, oldest first; when all \<open>N\<close> requests succeed, its length is
  \<open>min N 15\<close>.
\<close>

theorem history_bounded_fifo:
  "length (voiceHistory (fst (sys_run (initial_state w, []) ops))) \<le> VOICE_HISTORY_MAX_TURNS
   \<and> (voiceHistoryEnabled g \<and> voiceHistory g = [] \<longrightarrow>
        voiceHistory (snd (handle_all reqs g))
          = newest VOICE_HISTORY_MAX_TURNS (turns_of (zip (fst (handle_all reqs g)) (map fst reqs)))
        \<and> ((\<forall>r\<in>set (fst (handle_all reqs g)). is_success r) \<longrightarrow>
             length (voiceHistory (snd (handle_all reqs g)))
               = min (length reqs) VOICE_HISTORY_MAX_TURNS))"
proof (intro conjI impI; (elim conjE)?)
  show "length (voiceHistory (fst (sys_run (initial_state w, []) ops))) \<le> VOICE_HISTORY_MAX_TURNS"
    by (rule sys_run_history_le) (simp add: initial_state_def)
next
  assume en: "voiceHistoryEnabled g" and em: "voiceHistory g = []"
  from em have "voiceHistory g = newest VOICE_HISTORY_MAX_TURNS []" by (simp add: newest_def)
  from handle_all_newest[OF en this, of reqs]
  show eq: "voiceHistory (snd (handle_all reqs g))
          = newest VOICE_HISTORY_MAX_TURNS (turns_of (zip (fst (handle_all reqs g)) (map fst reqs)))"
    by simp
  assume "\<forall>r\<in>set (fst (handle_all reqs g)). is_success r"
  then have "length (turns_of (zip (fst (handle_all reqs g)) (map fst reqs))) = length reqs"
    using length_turns_of_success[of "fst (handle_all reqs g)" "map fst reqs"]
    by (simp add: length_handle_all)
  then show "length (voiceHistory (snd (handle_all reqs g)))
               = min (length reqs) VOICE_HISTORY_MAX_TURNS"
    by (simp add: eq newest_def min_def)
qed

lemma handler_third_success:
  assumes nf: "\<not> voiceStreamingActive g" and np: "voicePreferredModel g = None"
  shows "fst (handler env_third args_audio g) = Success ''what is up'' ''ab'' ''llama3'' (100, ''k3x9ab'')"
proof -
  have f: "find (succeeds env_third) (candidateModels (arg_model args_audio) (voicePreferredModel g)) = Some ''llama3''"
    by (simp add: args_audio_def np find_third)
  show ?thesis
    by (simp add: handler_generates_some[OF generates_third[OF nf] f] streamed_third final_answer_def)
       (simp add: env_third_def transcription_of_def js_or_def)
qed

lemma handle_all_third:
  "\<not> voiceStreamingActive g \<Longrightarrow> voicePreferredModel g = None \<Longrightarrow>
   fst (handle_all (replicate n (env_third, args_audio)) g)
     = replicate n (Success ''what is up'' ''ab'' ''llama3'' (100, ''k3x9ab''))"
  by (induction n arbitrary: g) (simp_all add: split_beta handler_third_success)

theorem history_bounded_fifo_witness:
  "length (voiceHistory (snd (handle_all (replicate 16 (env_third, args_audio)) (initial_state True))))
     = 15
   \<and> length (voiceHistory (snd (handle_all (replicate 2 (env_third, args_audio)) (initial_state True))))
     = 2"
proof -
  have g: "voiceHistoryEnabled (initial_state True) \<and> voiceHistory (initial_state True) = []"
    by (simp add: initial_state_def)
  have a: "\<not> voiceStreamingActive (initial_state True)" "voicePreferredModel (initial_state True) = None"
    by (simp_all add: initial_state_def)
  have s: "\<forall>r\<in>set (fst (handle_all (replicate n (env_third, args_audio)) (initial_state True))). is_success r" for n
    by (simp add: handle_all_third[OF a])
  note big = history_bounded_fifo
                [of True "[]" "initial_state True" "replicate 16 (env_third, args_audio)",
                 THEN conjunct2, THEN mp, OF g, THEN conjunct2, THEN mp, OF s[of 16]]
  note small = history_bounded_fifo
                [of True "[]" "initial_state True" "replicate 2 (env_third, args_audio)",
                 THEN conjunct2, THEN mp, OF g, THEN conjunct2, THEN mp, OF s[of 2]]
  from big small show ?thesis by (simp add: VOICE_HISTORY_MAX_TURNS_def)
qed

subsection \<open>Fallback over the candidate models\<close>

lemma lines_of_body_ab:
  \<open>lines_of (hd body_ab) = [''{"response":"a"}'', ''{"response":"b"}'', ''{"done":true}'']\<close>
  by (simp add: lines_of_def body_ab_def js_trim_def is_space_def newline_def)

lemma deltas_of_body_ab:
  assumes \<open>parse ''{"response":"a"}'' = Json ''a'' False\<close>
    and \<open>parse ''{"response":"b"}'' = Json ''b'' False\<close>
    and \<open>parse ''{"done":true}'' = Json [] True\<close>
  shows "deltas_of parse body_ab = [''a'', ''b'']"
proof -
  have "body_ab = [hd body_ab]" by (simp add: body_ab_def)
  then have "deltas_of parse body_ab = line_deltas parse (hd body_ab)"
    by (metis append_Nil2 concat.simps deltas_of_def list.simps(8,9))
  also have "\<dots> = [''a'', ''b'']"
    by (simp add: line_deltas_def lines_of_body_ab assms)
  finally show ?thesis .
qed

lemma handler_result_generates:
  assumes gen: "generates e ar g"
  shows "fst (handler e ar g) =
          (case find (succeeds e) (candidateModels (arg_model ar) (voicePreferredModel g)) of
             None \<Rightarrow> Failure ''LLM generation failed for all models''
           | Some m \<Rightarrow> Success (transcription_of (stt e)) (final_answer (streamed e m)) m
                         (startTs e, rand e))"
proof (cases "find (succeeds e) (candidateModels (arg_model ar) (voicePreferredModel g))")
  case None
  then show ?thesis
    by (simp add: handler_generates_none[OF gen None] catch_top_result js_or_def del: catch_top.simps)
next
  case (Some m)
  then show ?thesis by (simp add: handler_generates_some[OF gen Some])
qed

lemma scenario_three:
  assumes r1: "llm e m1 = Response False s1 b1"
    and r2: "llm e m2 = Response False s2 b2"
    and r3: "llm e m3 = Response True s3 (Some (body_ab, EndOfStream))"
    and p: \<open>json_parse e ''{"response":"a"}'' = Json ''a'' False\<close>
           \<open>json_parse e ''{"response":"b"}'' = Json ''b'' False\<close>
           \<open>json_parse e ''{"done":true}'' = Json [] True\<close>
  shows "gen_loop e rid prompt (m1 # m2 # m3 # rest) g =
           (Some m3, ''ab'',
            g\<lparr>trace := trace g
               @ [FetchGenerate m1 prompt, FetchGenerate m2 prompt, FetchGenerate m3 prompt]
               @ (if mainWindow g
                  then [Send (Partial rid ''a'' ''a'' m3), Send (Partial rid ''b'' ''ab'' m3)]
                  else [])\<rparr>)"
proof -
  have f1: "\<not> succeeds e m1" and c1: "body_chunks e m1 = []"
    using r1 by (cases b1; simp add: succeeds_def body_chunks_def split: prod.split)+
  have f2: "\<not> succeeds e m2" and c2: "body_chunks e m2 = []"
    using r2 by (cases b2; simp add: succeeds_def body_chunks_def split: prod.split)+
  have f3: "succeeds e m3" and c3: "body_chunks e m3 = body_ab"
    using r3 by (simp_all add: succeeds_def body_chunks_def)
  have s3: "streamed e m3 = ''ab''"
    by (simp add: streamed_def c3 deltas_of_body_ab[OF p])
  have att: "attempted e (m1 # m2 # m3 # rest) = [m1, m2, m3]"
    by (simp add: attempted_Cons f1 f2 f3)
  show ?thesis
    by (simp add: gen_loop_find f1 f2 f3 s3 att attempt_trace_def attempt_events_def
                  c1 c2 c3 deltas_of_body_ab[OF p] del: gen_loop.simps)
qed

lemma lines_of_chunk_html: "lines_of chunk_html = [chunk_html]"
  by (simp add: chunk_html_def lines_of_def js_trim_def is_space_def newline_def)

lemma toy_parse_chunk_html: "toy_parse chunk_html = Unparsable"
  by (simp add: chunk_html_def toy_parse_def)

lemma deltas_of_unparsable:
  "\<forall>c\<in>set chunks. \<forall>l\<in>set (lines_of c). parse l = Unparsable \<Longrightarrow> deltas_of parse chunks = []"
  by (auto simp: deltas_of_def line_deltas_def)

lemma unparsable_body_completes:
  assumes r: "llm e m = Response True status (Some (chunks, EndOfStream))"
    and u: "\<forall>c\<in>set chunks. \<forall>l\<in>set (lines_of c). json_parse e l = Unparsable"
  shows "gen_loop e rid prompt (m # ms) g = (Some m, [], perform (FetchGenerate m prompt) g)"
proof -
  from r have s: "succeeds e m" and c: "body_chunks e m = chunks"
    by (simp_all add: succeeds_def body_chunks_def)
  show ?thesis
    by (simp add: gen_loop_Cons_ok[OF s] c deltas_of_unparsable[OF u] attempt_trace_def
                  attempt_events_def perform_def del: gen_loop.simps)
qed

text \<open>
  C2, as amended. The loop tries the candidates in their order. An attempt fails when
  \<open>fetch\<close> throws, the status is not \<open>ok\<close>, the body is missing or a read of the body
  throws; the loop then starts the next candidate with an empty answer. It stops at the
  first candidate whose attempt completes: that candidate is \<open>usedModel\<close>, and the answer
  is the text of its deltas alone. The requests sent go to the candidates up to that one,
  in order. A run of the handler that gets to the loop returns that model and its answer,
  or fails with \<open>LLM generation failed for all models\<close> when no attempt completes. In
  particular, when the first two candidates answer with an error status and the third
  streams \<open>{"response":"a"}\n{"response":"b"}\n{"done":true}\n\<close>, the answer is \<open>ab\<close>, the
  model is the third, and the only partial events are the two of the third model. A line
  that does not parse is skipped and is no error of the attempt: a candidate whose body
  is read to its end without one line that parses completes with the empty answer, and no
  further candidate is tried.
\<close>

theorem model_fallback:
  \<open>gen_loop e rid prompt ms g =
     (find (succeeds e) ms,
      (case find (succeeds e) ms of None \<Rightarrow> [] | Some m \<Rightarrow> streamed e m),
      g\<lparr>trace := trace g
             @ concat (map (attempt_trace e rid prompt (mainWindow g)) (attempted e ms))\<rparr>)
   \<and> (generates e ar g \<longrightarrow>
        fst (handler e ar g) =
          (case find (succeeds e) (candidateModels (arg_model ar) (voicePreferredModel g)) of
             None \<Rightarrow> Failure ''LLM generation failed for all models''
           | Some m \<Rightarrow> Success (transcription_of (stt e)) (final_answer (streamed e m)) m
                         (startTs e, rand e)))
   \<and> (llm e m1 = Response False s1 b1 \<and> llm e m2 = Response False s2 b2
        \<and> llm e m3 = Response True s3 (Some (body_ab, EndOfStream))
        \<and> json_parse e ''{"response":"a"}'' = Json ''a'' False
        \<and> json_parse e ''{"response":"b"}'' = Json ''b'' False
        \<and> json_parse e ''{"done":true}'' = Json [] True \<longrightarrow>
        gen_loop e rid prompt (m1 # m2 # m3 # rest) g =
           (Some m3, ''ab'',
            g\<lparr>trace := trace g
               @ [FetchGenerate m1 prompt, FetchGenerate m2 prompt, FetchGenerate m3 prompt]
               @ (if mainWindow g
                  then [Send (Partial rid ''a'' ''a'' m3), Send (Partial rid ''b'' ''ab'' m3)]
                  else [])\<rparr>))
   \<and> (llm e m0 = Response True s0 (Some (chunks, EndOfStream))
        \<and> (\<forall>c\<in>set chunks. \<forall>l\<in>set (lines_of c). json_parse e l = Unparsable) \<longrightarrow>
        gen_loop e rid prompt (m0 # ms) g
          = (Some m0, [], perform (FetchGenerate m0 prompt) g))\<close>
proof (intro conjI impI)
  show "gen_loop e rid prompt ms g =
     (find (succeeds e) ms,
      (case find (succeeds e) ms of None \<Rightarrow> [] | Some m \<Rightarrow> streamed e m),
      g\<lparr>trace := trace g
             @ concat (map (attempt_trace e rid prompt (mainWindow g)) (attempted e ms))\<rparr>)"
    by (rule gen_loop_find)
next
  assume "generates e ar g"
  then show "fst (handler e ar g) =
          (case find (succeeds e) (candidateModels (arg_model ar) (voicePreferredModel g)) of
             None \<Rightarrow> Failure ''LLM generation failed for all models''
           | Some m \<Rightarrow> Success (transcription_of (stt e)) (final_answer (streamed e m)) m
                         (startTs e, rand e))"
    by (rule handler_result_generates)
next
  assume \<open>llm e m1 = Response False s1 b1 \<and> llm e m2 = Response False s2 b2
        \<and> llm e m3 = Response True s3 (Some (body_ab, EndOfStream))
        \<and> json_parse e ''{"response":"a"}'' = Json ''a'' False
        \<and> json_parse e ''{"response":"b"}'' = Json ''b'' False
        \<and> json_parse e ''{"done":true}'' = Json [] True\<close>
  then show "gen_loop e rid prompt (m1 # m2 # m3 # rest) g =
           (Some m3, ''ab'',
            g\<lparr>trace := trace g
               @ [FetchGenerate m1 prompt, FetchGenerate m2 prompt, FetchGenerate m3 prompt]
               @ (if mainWindow g
                  then [Send (Partial rid ''a'' ''a'' m3), Send (Partial rid ''b'' ''ab'' m3)]
                  else [])\<rparr>)"
    by (elim conjE) (rule scenario_three)
next
  assume "llm e m0 = Response True s0 (Some (chunks, EndOfStream))
        \<and> (\<forall>c\<in>set chunks. \<forall>l\<in>set (lines_of c). json_parse e l = Unparsable)"
  then show "gen_loop e rid prompt (m0 # ms) g
          = (Some m0, [], perform (FetchGenerate m0 prompt) g)"
    by (elim conjE) (rule unparsable_body_completes)
qed

theorem model_fallback_witness:
  "fst (handler env_third args_audio (initial_state True))
     = Success ''what is up'' ''ab'' ''llama3'' (100, ''k3x9ab'')
   \<and> gen_loop env_third (100, ''k3x9ab'') ''Question: what is up''
        [''phi3:latest'', ''mistral:latest'', ''llama3''] (initial_state True)
     = (Some ''llama3'', ''ab'',
        (initial_state True)
          \<lparr>trace := [FetchGenerate ''phi3:latest'' ''Question: what is up'',
                      FetchGenerate ''mistral:latest'' ''Question: what is up'',
                      FetchGenerate ''llama3'' ''Question: what is up'',
                      Send (Partial (100, ''k3x9ab'') ''a'' ''a'' ''llama3''),
                      Send (Partial (100, ''k3x9ab'') ''b'' ''ab'' ''llama3'')]\<rparr>)
   \<and> gen_loop env_garbage (100, ''k3x9ab'') ''Question: what is up''
        [''phi3:latest'', ''mistral:latest''] (initial_state True)
     = (Some ''phi3:latest'', [],
        perform (FetchGenerate ''phi3:latest'' ''Question: what is up'') (initial_state True))"
proof -
  have nf: "\<not> voiceStreamingActive (initial_state True)" by (simp add: initial_state_def)
  have f: "find (succeeds env_third) (candidateModels (arg_model args_audio)
             (voicePreferredModel (initial_state True))) = Some ''llama3''"
    by (simp add: args_audio_def initial_state_def find_third)
  have hyp: \<open>llm env_third ''phi3:latest'' = Response False 500 None
        \<and> llm env_third ''mistral:latest'' = Response False 404 None
        \<and> llm env_third ''llama3'' = Response True 200 (Some (body_ab, EndOfStream))
        \<and> json_parse env_third ''{"response":"a"}'' = Json ''a'' False
        \<and> json_parse env_third ''{"response":"b"}'' = Json ''b'' False
        \<and> json_parse env_third ''{"done":true}'' = Json [] True\<close>
    by (simp add: env_third_def llm_third_def toy_parse_def)
  note first = model_fallback
                 [of env_third _ _ _ "initial_state True" args_audio,
                  THEN conjunct2, THEN conjunct1, THEN mp, OF generates_third[OF nf]]
  note second = model_fallback
                 [of env_third "(100, ''k3x9ab'')" "''Question: what is up''" _ "initial_state True" _
                     "''phi3:latest''" 500 None "''mistral:latest''" 404 None "''llama3''" 200 "[]",
                  THEN conjunct2, THEN conjunct2, THEN conjunct1, THEN mp, OF hyp]
  have garbage: "llm env_garbage ''phi3:latest'' = Response True 200 (Some ([chunk_html], EndOfStream))
        \<and> (\<forall>c\<in>set [chunk_html]. \<forall>l\<in>set (lines_of c). json_parse env_garbage l = Unparsable)"
    by (simp add: env_garbage_def env_third_def llm_garbage_def lines_of_chunk_html
                  toy_parse_chunk_html)
  note third = model_fallback
                 [of env_garbage "(100, ''k3x9ab'')" "''Question: what is up''"
                     "[''mistral:latest'']" "initial_state True" _ _ _ _ _ _ _ _ _ _
                     "''phi3:latest''" 200 "[chunk_html]",
                  THEN conjunct2, THEN conjunct2, THEN conjunct2, THEN mp, OF garbage]
  have "fst (handler env_third args_audio (initial_state True))
     = Success ''what is up'' ''ab'' ''llama3'' (100, ''k3x9ab'')"
    using first by (simp add: f streamed_third final_answer_def)
      (simp add: env_third_def transcription_of_def js_or_def)
  moreover have "gen_loop env_third (100, ''k3x9ab'') ''Question: what is up''
        [''phi3:latest'', ''mistral:latest'', ''llama3''] (initial_state True)
     = (Some ''llama3'', ''ab'',
        (initial_state True)
          \<lparr>trace := [FetchGenerate ''phi3:latest'' ''Question: what is up'',
                      FetchGenerate ''mistral:latest'' ''Question: what is up'',
                      FetchGenerate ''llama3'' ''Question: what is up'',
                      Send (Partial (100, ''k3x9ab'') ''a'' ''a'' ''llama3''),
                      Send (Partial (100, ''k3x9ab'') ''b'' ''ab'' ''llama3'')]\<rparr>)"
    using second by (simp add: initial_state_def del: gen_loop.simps)
  ultimately show ?thesis using third by simp
qed

text \<open>
  A body that is no JSON at all is taken for a complete answer: the first candidate is the
  model used, the answer is the placeholder, and no second candidate is asked.
\<close>

theorem unparsable_stream_accepted_counterexample:
  "fst (handler env_garbage args_audio (initial_state True))
     = Success ''what is up'' ''No answer generated.'' ''phi3:latest'' (100, ''k3x9ab'')
   \<and> filter is_network (trace (snd (handler env_garbage args_audio (initial_state True))))
     = [PostTranscribe ''en'',
        FetchGenerate ''phi3:latest'' (''Question: what is up'' @ [newline, newline] @ ''Answer:'')]"
  by (simp add: handler_eq seg_entry_eq seg_prompt_def env_garbage_def env_third_def
                llm_garbage_def args_audio_def initial_state_def Let_def js_or_def
                send_def perform_def candidateModels_def js_truthy_def defaultModels_def
                promptBase_def systemPrefix_def historySection_def read_loop_def
                process_chunk_def lines_of_chunk_html process_line_def toy_parse_chunk_html
                conclude_def push_turn_def VOICE_HISTORY_MAX_TURNS_def)

subsection \<open>The partial events of a run\<close>

lemma growing_partial_events: "growing prev (partial_events rid m prev ds)"
  by (induction ds arbitrary: prev) simp_all

lemma is_partial_partial_events:
  "filter is_partial (map Send (partial_events rid m prev ds)) = map Send (partial_events rid m prev ds)"
  by (induction ds arbitrary: prev) simp_all

lemma is_network_partial_events:
  "filter is_network (map Send evs) = []"
  by (induction evs) simp_all

lemma partial_attempt_trace:
  "filter is_partial (attempt_trace e rid prompt w m)
     = (if w then map Send (attempt_events e rid m) else [])"
  by (simp add: attempt_trace_def attempt_events_def is_partial_partial_events)

lemma partial_concat_attempt_trace:
  "filter is_partial (concat (map (attempt_trace e rid prompt w) ms))
     = (if w then map Send (concat (map (attempt_events e rid) ms)) else [])"
  by (induction ms) (simp_all add: partial_attempt_trace)

lemma partial_send:
  "filter is_partial (trace (send ev g))
     = filter is_partial (trace g) @ (if mainWindow g \<and> is_partial (Send ev) then [Send ev] else [])"
  by (simp add: send_def)

lemma partial_seg_entry:
  "filter is_partial (trace (snd (seg_entry e ar g))) = filter is_partial (trace g)"
  by (simp add: seg_entry_eq Let_def partial_send split: option.split)

lemma partial_seg_prompt:
  "filter is_partial (trace (snd (seg_prompt e ar g))) = filter is_partial (trace g)"
  by (simp add: seg_prompt_def Let_def partial_send split: stt_response.split)

lemma partial_catch_top:
  "filter is_partial (trace (snd (catch_top err g))) = filter is_partial (trace g)"
  by (simp add: catch_top_trace)

lemma partial_left_loop:
  "filter is_partial (trace (left_loop e ar g))
     = filter is_partial (trace g)
       @ (if mainWindow g
          then map Send (concat (map (attempt_events e (startTs e, rand e))
                 (attempted e (candidateModels (arg_model ar) (voicePreferredModel g)))))
          else [])"
  by (simp add: left_loop_def partial_concat_attempt_trace partial_seg_prompt partial_seg_entry)

lemma handler_partials:
  "filter is_partial (trace (snd (handler e ar g))) =
     filter is_partial (trace g)
     @ (if generates e ar g \<and> mainWindow g
        then map Send (concat (map (attempt_events e (startTs e, rand e))
                         (attempted e (candidateModels (arg_model ar) (voicePreferredModel g)))))
        else [])"
proof (cases "voiceStreamingActive g")
  case True
  then show ?thesis by (simp add: handler_rejects generates_def)
next
  case nf: False
  show ?thesis
  proof (cases "generates e ar g")
    case False
    show ?thesis
      by (simp add: handler_early[OF nf False] False partial_catch_top partial_seg_entry
               del: catch_top.simps split: sum.split)
  next
    case gen: True
    show ?thesis
    proof (cases "find (succeeds e) (candidateModels (arg_model ar) (voicePreferredModel g))")
      case None
      show ?thesis
        by (simp add: handler_generates_none[OF gen None] gen partial_catch_top partial_left_loop
                 del: catch_top.simps)
    next
      case (Some m)
      show ?thesis
        by (simp add: handler_generates_some[OF gen Some] gen partial_send partial_left_loop)
    qed
  qed
qed

text \<open>
  C5, as amended. The partial events that a run of the handler sends are, attempt by
  attempt in the order of the candidates tried, and within an attempt delta by delta in
  the order in which the chunks were read and their lines stand, one event for each
  non-empty delta; all carry the request id of the run. Within one attempt the cumulative
  text grows: the first event carries its delta, every later one the text of the event
  before it followed by its own delta. (A new attempt starts again from the empty text.)
\<close>

theorem partial_events_in_order:
  "filter is_partial (trace (snd (handler e ar g))) =
     filter is_partial (trace g)
     @ (if generates e ar g \<and> mainWindow g
        then map Send (concat (map (attempt_events e (startTs e, rand e))
                         (attempted e (candidateModels (arg_model ar) (voicePreferredModel g)))))
        else [])
   \<and> attempt_events e rid m = partial_events rid m [] (deltas_of (json_parse e) (body_chunks e m))
   \<and> growing [] (attempt_events e rid m)"
  by (intro conjI)
     (rule handler_partials, rule attempt_events_def,
      simp only: attempt_events_def growing_partial_events)

lemma candidates_default: "candidateModels (arg_model args_audio) None = defaultModels"
  by (simp add: candidateModels_def js_truthy_def args_audio_def defaultModels_def)

lemma attempted_third:
  "attempted env_third defaultModels = [''phi3:latest'', ''mistral:latest'', ''llama3'']"
  by (simp add: defaultModels_def attempted_Cons succeeds_third)

lemma body_chunks_third:
  "body_chunks env_third m
     = (if m = ''phi3:latest'' \<or> m = ''mistral:latest'' then [] else body_ab)"
  by (simp add: body_chunks_def env_third_def llm_third_def)

lemma json_parse_third [simp]: "json_parse env_third = toy_parse"
  by (simp add: env_third_def)

lemma attempt_events_third:
  "concat (map (attempt_events env_third rid) (attempted env_third defaultModels))
     = [Partial rid ''a'' ''a'' ''llama3'', Partial rid ''b'' ''ab'' ''llama3'']"
  by (simp add: attempted_third attempt_events_def body_chunks_third deltas_of_toy_body_ab)

theorem partial_events_in_order_witness:
  "filter is_partial (trace (snd (handler env_third args_audio (initial_state True))))
     = [Send (Partial (100, ''k3x9ab'') ''a'' ''a'' ''llama3''),
        Send (Partial (100, ''k3x9ab'') ''b'' ''ab'' ''llama3'')]
   \<and> growing [] (attempt_events env_third (100, ''k3x9ab'') ''llama3'')"
proof -
  have nf: "\<not> voiceStreamingActive (initial_state True)" by (simp add: initial_state_def)
  note gen = generates_third[OF nf]
  note inst = partial_events_in_order[of env_third args_audio "initial_state True" "(100, ''k3x9ab'')" "''llama3''"]
  have "filter is_partial (trace (snd (handler env_third args_audio (initial_state True))))
     = [Send (Partial (100, ''k3x9ab'') ''a'' ''a'' ''llama3''),
        Send (Partial (100, ''k3x9ab'') ''b'' ''ab'' ''llama3'')]"
    using inst[THEN conjunct1] gen
    by (simp add: initial_state_def candidates_default attempt_events_third)
       (simp add: env_third_def)
  with inst[THEN conjunct2, THEN conjunct2] show ?thesis by simp
qed

lemma succeeds_broken: "succeeds env_broken m = (m \<noteq> ''phi3:latest'')"
  by (simp add: succeeds_def env_broken_def env_third_def llm_broken_def)

lemma attempted_broken:
  "attempted env_broken defaultModels = [''phi3:latest'', ''mistral:latest'']"
  by (simp add: defaultModels_def attempted_Cons succeeds_broken)

lemma body_chunks_broken:
  "body_chunks env_broken m = (if m = ''phi3:latest'' then [chunk_b] else body_ab)"
  by (simp add: body_chunks_def env_broken_def env_third_def llm_broken_def)

lemma json_parse_broken [simp]: "json_parse env_broken = toy_parse"
  by (simp add: env_broken_def env_third_def)

lemma deltas_of_single: "deltas_of toy_parse [chunk_b] = [''b'']"
  by (simp add: deltas_of_def line_deltas_def lines_of_def js_trim_def is_space_def
                newline_def toy_parse_def chunk_b_def)

lemma attempt_events_broken:
  \<open>concat (map (attempt_events env_broken rid) (attempted env_broken defaultModels))
     = [Partial rid ''b'' ''b'' ''phi3:latest'',
        Partial rid ''a'' ''a'' ''mistral:latest'', Partial rid ''b'' ''ab'' ''mistral:latest'']\<close>
  by (simp add: attempted_broken attempt_events_def body_chunks_broken deltas_of_toy_body_ab
                deltas_of_single)

lemma generates_broken:
  "\<not> voiceStreamingActive g \<Longrightarrow> generates env_broken args_audio g"
  by (simp add: generates_def env_broken_def env_third_def args_audio_def transcription_of_def js_or_def)

text \<open>
  C5 as stated fails across a fallback: the first model sends the delta \<open>b\<close> and then
  its body breaks, the second model starts again with \<open>a\<close>, which does not extend
  \<open>b\<close>, under the same request id.
\<close>

theorem partial_text_restarts_counterexample:
  "filter is_partial (trace (snd (handler env_broken args_audio (initial_state True))))
     = [Send (Partial (100, ''k3x9ab'') ''b'' ''b'' ''phi3:latest''),
        Send (Partial (100, ''k3x9ab'') ''a'' ''a'' ''mistral:latest''),
        Send (Partial (100, ''k3x9ab'') ''b'' ''ab'' ''mistral:latest'')]
   \<and> \<not> extends ''a'' ''b''"
proof -
  have nf: "\<not> voiceStreamingActive (initial_state True)" by (simp add: initial_state_def)
  have "filter is_partial (trace (snd (handler env_broken args_audio (initial_state True))))
     = [Send (Partial (100, ''k3x9ab'') ''b'' ''b'' ''phi3:latest''),
        Send (Partial (100, ''k3x9ab'') ''a'' ''a'' ''mistral:latest''),
        Send (Partial (100, ''k3x9ab'') ''b'' ''ab'' ''mistral:latest'')]"
    using generates_broken[OF nf]
    by (simp add: handler_partials initial_state_def candidates_default attempt_events_broken)
       (simp add: env_broken_def env_third_def)
  then show ?thesis by (simp add: extends_def)
qed

subsection \<open>Missing and empty buffers, and failures\<close>

lemma network_send:
  "filter is_network (trace (send ev g)) = filter is_network (trace g)"
  by (simp add: send_def)

lemma handler_missing_buffer:
  "\<not> voiceStreamingActive g \<Longrightarrow> arg_buffer ar = None \<Longrightarrow>
   handler e ar g = catch_top (Error ''No audio buffer provided'') g"
  by (simp add: handler_eq seg_entry_eq del: catch_top.simps)

text \<open>
  C6, as amended. When the buffer is missing, the handler returns
  \<open>{success: false, error}\<close> and makes no call over the network: admitted, it fails
  with \<open>No audio buffer provided\<close>, sends the error event and clears the flag; while
  the streaming flag is set, it is rejected like every invocation.
\<close>

theorem missing_buffer_rejected:
  "arg_buffer ar = None \<longrightarrow>
     handler e ar g =
       (if voiceStreamingActive g then (Failure ''Another voice request in progress'', g)
        else (Failure ''No audio buffer provided'',
              (send (ErrorEv ''No audio buffer provided'') g)\<lparr>voiceStreamingActive := False\<rparr>))
     \<and> filter is_network (trace (snd (handler e ar g))) = filter is_network (trace g)"
proof
  assume none: "arg_buffer ar = None"
  show "handler e ar g =
       (if voiceStreamingActive g then (Failure ''Another voice request in progress'', g)
        else (Failure ''No audio buffer provided'',
              (send (ErrorEv ''No audio buffer provided'') g)\<lparr>voiceStreamingActive := False\<rparr>))
     \<and> filter is_network (trace (snd (handler e ar g))) = filter is_network (trace g)"
  proof (cases "voiceStreamingActive g")
    case True
    then show ?thesis by (simp add: handler_rejects)
  next
    case False
    from handler_missing_buffer[OF False none] False show ?thesis
      by (simp add: Let_def js_or_def network_send)
  qed
qed

theorem missing_buffer_rejected_witness:
  "handler env_third args_missing (initial_state True)
     = (Failure ''No audio buffer provided'',
        (initial_state True)\<lparr>trace := [Send (ErrorEv ''No audio buffer provided'')]\<rparr>)"
proof -
  have "arg_buffer args_missing = None" by (simp add: args_missing_def)
  from missing_buffer_rejected[of args_missing env_third "initial_state True", THEN mp, OF this]
  show ?thesis by (simp add: initial_state_def send_def)
qed

lemma network_attempt_trace:
  "filter is_network (concat (map (attempt_trace e rid prompt w) ms))
     = map (\<lambda>m. FetchGenerate m prompt) ms"
  by (induction ms) (simp_all add: attempt_trace_def is_network_partial_events)

lemma network_left_loop:
  "generates e ar g \<Longrightarrow>
   filter is_network (trace (left_loop e ar g))
     = filter is_network (trace g)
       @ PostTranscribe (js_or (case arg_language ar of Some l \<Rightarrow> l | None \<Rightarrow> []) ''en'')
       # map (\<lambda>m. FetchGenerate m (promptBase g (transcription_of (stt e))))
             (attempted e (candidateModels (arg_model ar) (voicePreferredModel g)))"
  by (simp add: left_loop_def network_attempt_trace seg_entry_generates seg_prompt_generates
                generates_def network_send)

lemma promptBase_initial:
  "promptBase (initial_state w) tr = ''Question: '' @ tr @ [newline, newline] @ ''Answer:''"
  by (simp add: promptBase_def initial_state_def systemPrefix_def historySection_def)

lemma generates_third_empty:
  "\<not> voiceStreamingActive g \<Longrightarrow> generates env_third args_empty g"
  by (simp add: generates_def env_third_def args_empty_def transcription_of_def js_or_def)

text \<open>
  C6 as stated fails for a buffer of length 0: \<open>!args?.buffer\<close> is false for an empty
  \<open>ArrayBuffer\<close>, so the run goes on, posts to the transcription service and to the
  generation service, and can succeed.
\<close>

theorem empty_buffer_counterexample:
  "fst (handler env_third args_empty (initial_state True))
     = Success ''what is up'' ''ab'' ''llama3'' (100, ''k3x9ab'')
   \<and> filter is_network (trace (snd (handler env_third args_empty (initial_state True))))
     = [PostTranscribe ''en'',
        FetchGenerate ''phi3:latest'' (''Question: what is up'' @ [newline, newline] @ ''Answer:''),
        FetchGenerate ''mistral:latest'' (''Question: what is up'' @ [newline, newline] @ ''Answer:''),
        FetchGenerate ''llama3'' (''Question: what is up'' @ [newline, newline] @ ''Answer:'')]"
proof -
  let ?g = "initial_state True"
  have nf: "\<not> voiceStreamingActive ?g" by (simp add: initial_state_def)
  note gen = generates_third_empty[OF nf]
  have c: "candidateModels (arg_model args_empty) (voicePreferredModel ?g) = defaultModels"
    by (simp add: candidateModels_def js_truthy_def args_empty_def defaultModels_def initial_state_def)
  have f: "find (succeeds env_third) (candidateModels (arg_model args_empty) (voicePreferredModel ?g)) = Some ''llama3''"
    by (simp add: c defaultModels_def succeeds_third)
  have tr: "transcription_of (stt env_third) = ''what is up''"
    by (simp add: env_third_def transcription_of_def js_or_def)
  have lang: "js_or (case arg_language args_empty of Some l \<Rightarrow> l | None \<Rightarrow> []) ''en'' = ''en''"
    by (simp add: args_empty_def js_or_def)
  have t0: "trace ?g = []" by (simp add: initial_state_def)
  have 1: "fst (handler env_third args_empty ?g) = Success ''what is up'' ''ab'' ''llama3'' (100, ''k3x9ab'')"
    by (simp add: handler_generates_some[OF gen f] streamed_third final_answer_def tr)
       (simp add: env_third_def)
  have 2: "filter is_network (trace (snd (handler env_third args_empty ?g)))
     = [PostTranscribe ''en'',
        FetchGenerate ''phi3:latest'' (''Question: what is up'' @ [newline, newline] @ ''Answer:''),
        FetchGenerate ''mistral:latest'' (''Question: what is up'' @ [newline, newline] @ ''Answer:''),
        FetchGenerate ''llama3'' (''Question: what is up'' @ [newline, newline] @ ''Answer:'')]"
    by (simp add: handler_generates_some[OF gen f] network_send network_left_loop[OF gen]
                  c attempted_third lang promptBase_initial tr t0)
  from 1 2 show ?thesis by (rule conjI)
qed

lemma handler_failure_caught:
  assumes nf: "\<not> voiceStreamingActive g" and fail: "fst (handler e ar g) = Failure msg"
  shows "\<exists>G. handler e ar g = (Failure msg, (send (ErrorEv msg) G)\<lparr>voiceStreamingActive := False\<rparr>)
             \<and> mainWindow G = mainWindow g \<and> msg \<noteq> []"
proof -
  have c: "\<exists>G. catch_top err G0 = (Failure (fst_msg), (send (ErrorEv (fst_msg)) G)\<lparr>voiceStreamingActive := False\<rparr>)
             \<and> mainWindow G = mainWindow G0 \<and> fst_msg \<noteq> []"
    if "fst_msg = (case err of Error message \<Rightarrow> js_or message ''Voice processing failed'')"
    for err G0 fst_msg
    using that by (cases err) (auto simp: Let_def js_or_def)
  show ?thesis
  proof (cases "generates e ar g")
    case False
    have "\<exists>err. handler e ar g = catch_top err (snd (seg_entry e ar g))"
      by (cases "fst (seg_entry e ar g)")
         (simp_all only: handler_early[OF nf False] sum.case, blast+)
    then obtain err where h: "handler e ar g = catch_top err (snd (seg_entry e ar g))" ..
    from fail h have "msg = (case err of Error message \<Rightarrow> js_or message ''Voice processing failed'')"
      by (simp add: catch_top_result del: catch_top.simps)
    from c[OF this, of "snd (seg_entry e ar g)"] h show ?thesis by auto
  next
    case gen: True
    show ?thesis
    proof (cases "find (succeeds e) (candidateModels (arg_model ar) (voicePreferredModel g))")
      case None
      note h = handler_generates_none[OF gen None]
      from fail h have "msg = (case Error ''LLM generation failed for all models'' of
                                 Error message \<Rightarrow> js_or message ''Voice processing failed'')"
        by (simp add: catch_top_result del: catch_top.simps)
      from c[OF this, of "left_loop e ar g"] h show ?thesis by auto
    next
      case (Some m)
      from fail show ?thesis by (simp add: handler_generates_some[OF gen Some])
    qed
  qed
qed

lemma handler_fs_error:
  "\<not> voiceStreamingActive g \<Longrightarrow> arg_buffer ar \<noteq> None \<Longrightarrow> fs_error e = Some m \<Longrightarrow>
   fst (handler e ar g) = Failure (js_or m ''Voice processing failed'')"
  by (auto simp: handler_eq seg_entry_eq Let_def)

lemma handler_no_transcription:
  assumes "\<not> voiceStreamingActive g" "arg_buffer ar \<noteq> None" "fs_error e = None"
    "axios_error e = None" "formData_available e" "form_append_ok e"
    "transcription_of (stt e) = []"
  shows "fst (handler e ar g) =
           Failure (case stt e of SttThrows \<Rightarrow> ''Transcription failed''
                    | SttData x y z \<Rightarrow> ''Empty transcription result'')"
proof -
  from assms have ng: "\<not> generates e ar g" by (simp add: generates_def)
  from assms have en: "fst (seg_entry e ar g) = Inr ()"
    by (auto simp: seg_entry_eq Let_def)
  show ?thesis
    by (cases "stt e")
       (simp_all add: handler_early[OF assms(1) ng] en catch_top_result js_or_def del: catch_top.simps)
qed

lemma catch_phase_caught:
  assumes "fst (case catch_top err G of (r, g') \<Rightarrow> (Finished r, g')) = Finished (Failure msg)"
  shows "msg \<noteq> []
       \<and> \<not> voiceStreamingActive (snd (case catch_top err G of (r, g') \<Rightarrow> (Finished r, g')))
       \<and> (mainWindow G \<longrightarrow>
            trace (snd (case catch_top err G of (r, g') \<Rightarrow> (Finished r, g'))) \<noteq> []
            \<and> last (trace (snd (case catch_top err G of (r, g') \<Rightarrow> (Finished r, g'))))
                = Send (ErrorEv msg))"
  using assms by (cases err) (auto simp: Let_def js_or_def send_def split: if_splits)

lemma finish_caught:
  assumes "fst (finish e tr rid used ans G) = Finished (Failure msg)"
  shows "msg \<noteq> []
       \<and> \<not> voiceStreamingActive (snd (finish e tr rid used ans G))
       \<and> (mainWindow G \<longrightarrow>
            trace (snd (finish e tr rid used ans G)) \<noteq> []
            \<and> last (trace (snd (finish e tr rid used ans G))) = Send (ErrorEv msg))"
  using assms
  by (auto simp: finish_def conclude_def Let_def js_or_def send_def split: option.splits if_splits)

lemma next_fetch_caught:
  assumes "fst (next_fetch e tr rid prompt ms G) = Finished (Failure msg)"
  shows "msg \<noteq> []
       \<and> \<not> voiceStreamingActive (snd (next_fetch e tr rid prompt ms G))
       \<and> (mainWindow G \<longrightarrow>
            trace (snd (next_fetch e tr rid prompt ms G)) \<noteq> []
            \<and> last (trace (snd (next_fetch e tr rid prompt ms G))) = Send (ErrorEv msg))"
proof (cases ms)
  case Nil
  with assms finish_caught[of e tr rid None "[]" G msg] show ?thesis
    by (simp add: next_fetch_def)
next
  case (Cons m rest)
  with assms show ?thesis by (simp add: next_fetch_def)
qed

lemma resume_caught:
  assumes fl: "in_flight p" and fail: "fst (resume e ar p g) = Finished (Failure msg)"
  shows "msg \<noteq> []
       \<and> \<not> voiceStreamingActive (snd (resume e ar p g))
       \<and> (mainWindow g \<longrightarrow>
            trace (snd (resume e ar p g)) \<noteq> []
            \<and> last (trace (snd (resume e ar p g))) = Send (ErrorEv msg))"
proof (cases p)
  case Importing
  show ?thesis
  proof (cases "axios_error e")
    case None
    with fail Importing show ?thesis by (simp add: seg_axios_def)
  next
    case (Some m)
    with fail Importing catch_phase_caught[of "Error m" g msg] show ?thesis
      by (simp add: seg_axios_def del: catch_top.simps)
  qed
next
  case ImportingForm
  obtain x g1 where s: "seg_form e ar g = (x, g1)" by (cases "seg_form e ar g")
  have w: "mainWindow g1 = mainWindow g" using seg_form_fields(6)[of e ar g] by (simp add: s)
  show ?thesis
  proof (cases x)
    case (Inl err)
    with fail ImportingForm s w catch_phase_caught[of err g1 msg] show ?thesis
      by (simp del: catch_top.simps)
  next
    case (Inr u)
    with fail ImportingForm s show ?thesis by simp
  qed
next
  case Transcribing
  obtain x g1 where s: "seg_prompt e ar g = (x, g1)" by (cases "seg_prompt e ar g")
  have w: "mainWindow g1 = mainWindow g" using seg_prompt_fields(6)[of e ar g] by (simp add: s)
  show ?thesis
  proof (cases x)
    case (Inl err)
    with fail Transcribing s w catch_phase_caught[of err g1 msg] show ?thesis
      by (simp del: catch_top.simps)
  next
    case (Inr v)
    obtain tr rid prompt cands where v: "v = (tr, rid, prompt, cands)" by (cases v)
    from fail Transcribing s Inr v w
      next_fetch_caught[of e tr rid prompt cands "g1\<lparr>voiceStreamingActive := True\<rparr>" msg]
    show ?thesis by simp
  qed
next
  case (Fetching tr rid prompt m rest)
  with fail next_fetch_caught[of e tr rid prompt rest g msg] show ?thesis
    by (auto split: fetch_response.splits option.splits if_splits)
next
  case (Reading tr rid prompt m rest chunks fin answer)
  show ?thesis
  proof (cases chunks)
    case Nil
    with fail Reading next_fetch_caught[of e tr rid prompt rest g msg]
      finish_caught[of e tr rid "Some m" answer g msg]
    show ?thesis by (cases fin) simp_all
  next
    case (Cons c cs)
    with fail Reading show ?thesis by (simp add: split_beta)
  qed
next
  case (Finished r)
  with fl show ?thesis by simp
qed

lemma try_body_caught:
  assumes "\<not> voiceStreamingActive g" "try_body e ar g = (Inl (Error message), g1)"
  shows "handler e ar g
           = (Failure (js_or message ''Voice processing failed''),
              (send (ErrorEv (js_or message ''Voice processing failed'')) g1)
                \<lparr>voiceStreamingActive := False\<rparr>)"
  using assms by (simp add: handler_def Let_def)

lemma error_event_partial_events:
  "filter is_error_event (map Send (partial_events rid m prev ds)) = []"
  by (induction ds arbitrary: prev) simp_all

lemma error_event_attempt_trace:
  "filter is_error_event (concat (map (attempt_trace e rid prompt w) ms)) = []"
  by (induction ms) (simp_all add: attempt_trace_def attempt_events_def error_event_partial_events)

lemma error_event_left_loop:
  "generates e ar g \<Longrightarrow>
   filter is_error_event (trace (left_loop e ar g)) = filter is_error_event (trace g)"
  by (simp add: left_loop_def error_event_attempt_trace seg_entry_generates seg_prompt_generates
                generates_def send_def perform_def)


lemma succeeds_down: "succeeds env_down m = False"
  by (simp add: succeeds_def env_down_def env_third_def llm_down_def)

lemma generates_down:
  "\<not> voiceStreamingActive g \<Longrightarrow> generates env_down args_audio g"
  by (simp add: generates_def env_down_def env_third_def args_audio_def transcription_of_def js_or_def)

lemma find_down: "find (succeeds env_down) ms = None"
  by (induction ms) (simp_all add: succeeds_down)



subsection \<open>Admission\<close>

lemma reaches_trans: "reaches e ar a b \<Longrightarrow> reaches e ar b c \<Longrightarrow> reaches e ar a c"
  by (induction rule: reaches.induct) (auto intro: reaches.intros)

lemma reaches_one: "reaches e ar (p, g) (resume e ar p g)"
  by (rule reaches_resume) (rule reaches_here)

lemma finish_Finished: "\<exists>r. fst (finish e tr rid used answer g) = Finished r"
  by (cases "conclude e tr rid used answer (g\<lparr>voiceStreamingActive := False\<rparr>)")
     (auto simp: finish_def split_beta simp del: catch_top.simps split: sum.split)

lemma finish_flag [simp]: "voiceStreamingActive (snd (finish e tr rid used answer g)) = False"
  by (cases used)
     (auto simp: finish_def conclude_def Let_def split_beta simp del: catch_top.simps)

lemma finish_streaming [simp]: "streaming (fst (finish e tr rid used answer g)) = False"
  using finish_Finished[of e tr rid used answer g] by (auto simp: streaming_def)

lemma next_fetch_inv:
  "voiceStreamingActive g \<Longrightarrow>
   voiceStreamingActive (snd (next_fetch e tr rid prompt ms g))
     = streaming (fst (next_fetch e tr rid prompt ms g))"
proof (cases ms)
  case Nil
  then show ?thesis by (simp add: next_fetch_def)
next
  case (Cons m rest)
  assume "voiceStreamingActive g"
  with Cons show ?thesis by (simp add: next_fetch_def streaming_def)
qed

lemma start_inv:
  "\<not> voiceStreamingActive g \<Longrightarrow>
   voiceStreamingActive (snd (start e ar g)) = streaming (fst (start e ar g))"
  by (cases "fst (seg_write e ar g)")
     (simp_all add: start_def streaming_def split_beta del: catch_top.simps)

lemma resume_inv:
  assumes inv: "voiceStreamingActive g = streaming p"
  shows "voiceStreamingActive (snd (resume e ar p g)) = streaming (fst (resume e ar p g))"
proof (cases p)
  case Importing
  with inv show ?thesis
    by (cases "fst (seg_axios e ar g)")
       (simp_all add: streaming_def split_beta del: catch_top.simps)
next
  case ImportingForm
  with inv show ?thesis
    by (cases "fst (seg_form e ar g)")
       (simp_all add: streaming_def split_beta del: catch_top.simps)
next
  case Transcribing
  obtain r g1 where pr: "seg_prompt e ar g = (r, g1)" by (cases "seg_prompt e ar g")
  show ?thesis
  proof (cases r)
    case (Inl err)
    with Transcribing pr show ?thesis by (simp add: streaming_def split_beta del: catch_top.simps)
  next
    case (Inr v)
    obtain tr rid prompt cands where "v = (tr, rid, prompt, cands)" by (cases v) auto
    with Transcribing pr Inr show ?thesis by (simp add: next_fetch_inv)
  qed
next
  case (Fetching transcription requestId prompt m rest)
  with inv have f: "voiceStreamingActive g" by (simp add: streaming_def)
  from Fetching show ?thesis
    by (auto simp: next_fetch_inv[OF f] f streaming_def split: fetch_response.split option.split)
next
  case (Reading transcription requestId prompt m rest chunks fin answer)
  with inv have f: "voiceStreamingActive g" by (simp add: streaming_def)
  show ?thesis
  proof (cases chunks)
    case Nil
    with Reading show ?thesis by (cases fin) (simp_all add: next_fetch_inv[OF f])
  next
    case (Cons c cs)
    with Reading f show ?thesis by (simp add: process_chunk_eq streaming_def)
  qed
next
  case (Finished r)
  with inv show ?thesis by simp
qed

lemma reaches_inv:
  "reaches e ar c c' \<Longrightarrow> voiceStreamingActive (snd c) = streaming (fst c) \<Longrightarrow>
   voiceStreamingActive (snd c') = streaming (fst c')"
  by (induction rule: reaches.induct) (simp_all add: resume_inv)

lemma start_rejects:
  "voiceStreamingActive g \<Longrightarrow>
   start e ar g = (Finished (Failure ''Another voice request in progress''), g)"
  by (simp add: start_def)

text \<open>
  What the guard does do. An invocation made while \<open>voiceStreamingActive\<close> is set returns
  at once, is not queued and changes neither the module state nor any task. A request
  that is resumed with nothing in between, from a state with the flag cleared, has the
  flag set exactly while it is in the loop over the candidate models.
\<close>

lemma invoke_rejected:
  "voiceStreamingActive g \<Longrightarrow>
   sys_step (g, ts) (Invoke e ar)
     = (g, ts @ [(e, ar, Finished (Failure ''Another voice request in progress''))])"
  by (simp add: start_rejects)

lemma lone_task_flag:
  assumes "\<not> voiceStreamingActive g0" and "reaches e ar (start e ar g0) (p, g1)"
  shows "voiceStreamingActive g1 = streaming p"
  using reaches_inv[OF assms(2) start_inv[OF assms(1)]] by simp

text \<open>
  C1. The guard at the head of the handler is meant to keep a second voice request out
  while one is in progress, but the flag it tests is set only when the loop over the
  candidate models is entered, after the handler has been suspended three times. A second
  request invoked while the first waits for the transcription service is admitted; resumed
  in turn, both requests are in the loop over the candidate models at the same time. When
  the transcription of the second request fails while the first is in that loop, its
  \<open>catch\<close> clears the flag of the first, and a third request is admitted beside it.
\<close>

theorem requests_overlap:
  "map (snd \<circ> snd) (snd (sys_run (initial_state True, []) second_invoked))
     = [Transcribing, Importing]
   \<and> map (streaming \<circ> snd \<circ> snd) (snd (sys_run (initial_state True, []) both_resumed))
     = [True, True]
   \<and> map (streaming \<circ> snd \<circ> snd) (snd (sys_run (initial_state True, []) third_invoked))
     = [True, False, False]
   \<and> map (snd \<circ> snd) (drop 1 (snd (sys_run (initial_state True, []) third_invoked)))
     = [Finished (Failure ''Transcription failed''), Importing]"
  by (simp add: sys_run_def second_invoked_def both_resumed_def third_invoked_def
        env_stt_def env_third_def llm_third_def
        args_audio_def initial_state_def start_def seg_write_def seg_axios_def seg_form_def
        seg_prompt_def Let_def streaming_def
        js_or_def send_def perform_def candidateModels_def js_truthy_def defaultModels_def
        next_fetch_def)

subsection \<open>The task and the handler agree\<close>

lemma read_reaches:
  "reaches e ar (Reading tr rid prompt m rest chunks fin answer, g)
     (Reading tr rid prompt m rest [] fin
        (fst (read_loop (json_parse e) rid m chunks (answer, g))),
      snd (read_loop (json_parse e) rid m chunks (answer, g)))"
proof (induction chunks arbitrary: answer g)
  case Nil
  show ?case by (simp add: read_loop_def reaches_here)
next
  case (Cons c cs)
  let ?ag = "process_chunk (json_parse e) rid m (answer, g) c"
  have "resume e ar (Reading tr rid prompt m rest (c # cs) fin answer) g
          = (Reading tr rid prompt m rest cs fin (fst ?ag), snd ?ag)"
    by (simp add: split_beta)
  moreover have "read_loop (json_parse e) rid m (c # cs) (answer, g)
          = read_loop (json_parse e) rid m cs (fst ?ag, snd ?ag)"
    by (simp add: read_loop_def)
  ultimately show ?case
    using Cons.IH[of "fst ?ag" "snd ?ag"]
    by (intro reaches_resume) (simp del: resume.simps)
qed

lemma gen_reaches:
  "reaches e ar (next_fetch e tr rid prompt ms g)
     (finish e tr rid (fst (gen_loop e rid prompt ms g)) (fst (snd (gen_loop e rid prompt ms g)))
        (snd (snd (gen_loop e rid prompt ms g))))"
proof (induction ms arbitrary: g)
  case Nil
  show ?case by (simp add: next_fetch_def reaches_here)
next
  case (Cons m ms)
  let ?g1 = "perform (FetchGenerate m prompt) g"
  have nf: "next_fetch e tr rid prompt (m # ms) g = (Fetching tr rid prompt m ms, ?g1)"
    by (simp add: next_fetch_def)
  have fail: "reaches e ar (Fetching tr rid prompt m ms, ?g1)
                (finish e tr rid (fst (gen_loop e rid prompt ms ?g1))
                   (fst (snd (gen_loop e rid prompt ms ?g1))) (snd (snd (gen_loop e rid prompt ms ?g1))))"
    if "resume e ar (Fetching tr rid prompt m ms) ?g1 = next_fetch e tr rid prompt ms ?g1"
    by (rule reaches_resume) (simp only: that Cons.IH)
  show ?case
  proof (cases "llm e m")
    case FetchThrows
    then show ?thesis using fail by (simp add: nf Let_def)
  next
    case (Response ok status body)
    show ?thesis
    proof (cases body)
      case None
      with Response show ?thesis using fail by (simp add: nf Let_def)
    next
      case (Some b)
      obtain chunks fin where b: "b = (chunks, fin)" by (cases b)
      show ?thesis
      proof (cases ok)
        case False
        with Response Some b show ?thesis using fail by (simp add: nf Let_def)
      next
        case True
        let ?ag = "read_loop (json_parse e) rid m chunks ([], ?g1)"
        have r1: "resume e ar (Fetching tr rid prompt m ms) ?g1
                    = (Reading tr rid prompt m ms chunks fin [], ?g1)"
          using True Response Some b by simp
        have step1: "reaches e ar (Fetching tr rid prompt m ms, ?g1)
                       (Reading tr rid prompt m ms [] fin (fst ?ag), snd ?ag)"
          by (rule reaches_resume) (simp only: r1 read_reaches)
        show ?thesis
        proof (cases fin)
          case EndOfStream
          have "reaches e ar (Reading tr rid prompt m ms [] fin (fst ?ag), snd ?ag)
                  (finish e tr rid (Some m) (fst ?ag) (snd ?ag))"
            using reaches_one[of e ar "Reading tr rid prompt m ms [] fin (fst ?ag)" "snd ?ag"] EndOfStream
            by simp
          from reaches_trans[OF step1 this] True Response Some b EndOfStream
          show ?thesis by (simp add: nf Let_def)
        next
          case ReadThrows
          have "reaches e ar (Reading tr rid prompt m ms [] fin (fst ?ag), snd ?ag)
                  (finish e tr rid (fst (gen_loop e rid prompt ms (snd ?ag)))
                     (fst (snd (gen_loop e rid prompt ms (snd ?ag))))
                     (snd (snd (gen_loop e rid prompt ms (snd ?ag)))))"
            by (rule reaches_resume) (simp add: ReadThrows Cons.IH)
          from reaches_trans[OF step1 this] True Response Some b ReadThrows
          show ?thesis by (simp add: nf Let_def)
        qed
      qed
    qed
  qed
qed

lemma finish_eq:
  "finish e tr rid used answer g =
     (Finished (fst (case conclude e tr rid used answer (g\<lparr>voiceStreamingActive := False\<rparr>) of
                       (Inl err, g4) \<Rightarrow> catch_top err g4 | (Inr r, g4) \<Rightarrow> (r, g4))),
      snd (case conclude e tr rid used answer (g\<lparr>voiceStreamingActive := False\<rparr>) of
             (Inl err, g4) \<Rightarrow> catch_top err g4 | (Inr r, g4) \<Rightarrow> (r, g4)))"
  by (simp add: finish_def split_beta del: catch_top.simps split: prod.split sum.split)

lemma entry_reaches:
  assumes nf: "\<not> voiceStreamingActive g"
  shows "reaches e ar (start e ar g)
           (case seg_entry e ar g of
              (Inl err, g1) \<Rightarrow> (Finished (fst (catch_top err g1)), snd (catch_top err g1))
            | (Inr u, g1) \<Rightarrow> (Transcribing, g1))"
proof -
  obtain r0 ga where wr: "seg_write e ar g = (r0, ga)" by (cases "seg_write e ar g")
  show ?thesis
  proof (cases r0)
    case (Inl err)
    with wr nf show ?thesis
      by (simp add: start_def seg_entry_def split_beta reaches_here del: catch_top.simps)
  next
    case w: (Inr u)
    with wr nf have st: "start e ar g = (Importing, ga)" by (simp add: start_def)
    obtain r1 gb where ax: "seg_axios e ar ga = (r1, gb)" by (cases "seg_axios e ar ga")
    show ?thesis
    proof (cases r1)
      case (Inl err)
      with ax have "resume e ar Importing ga
                      = (Finished (fst (catch_top err gb)), snd (catch_top err gb))"
        by (simp add: split_beta del: catch_top.simps)
      with reaches_one[of e ar Importing ga] wr w ax Inl show ?thesis
        by (simp add: st seg_entry_def del: catch_top.simps resume.simps)
    next
      case x: (Inr u1)
      with ax have s1: "resume e ar Importing ga = (ImportingForm, gb)" by simp
      obtain r2 g1 where fm: "seg_form e ar gb = (r2, g1)" by (cases "seg_form e ar gb")
      have two: "reaches e ar (Importing, ga) (resume e ar ImportingForm gb)"
        by (rule reaches_resume) (simp only: s1 reaches_one)
      show ?thesis
      proof (cases r2)
        case (Inl err)
        with fm have "resume e ar ImportingForm gb
                        = (Finished (fst (catch_top err g1)), snd (catch_top err g1))"
          by (simp add: split_beta del: catch_top.simps)
        with two wr w ax x fm Inl show ?thesis
          by (simp add: st seg_entry_def del: catch_top.simps resume.simps)
      next
        case (Inr u2)
        with fm have "resume e ar ImportingForm gb = (Transcribing, g1)" by simp
        with two wr w ax x fm Inr show ?thesis
          by (simp add: st seg_entry_def del: catch_top.simps resume.simps)
      qed
    qed
  qed
qed

text \<open>
  A task that is resumed with nothing in between ends with the result and in the state of
  the handler run without interruption.
\<close>

lemma handler_reaches:
  "reaches e ar (start e ar g) (Finished (fst (handler e ar g)), snd (handler e ar g))"
proof (cases "voiceStreamingActive g")
  case True
  then show ?thesis by (simp add: start_def handler_eq reaches_here)
next
  case nf: False
  obtain r g1 where en: "seg_entry e ar g = (r, g1)" by (cases "seg_entry e ar g")
  show ?thesis
  proof (cases r)
    case (Inl err)
    with nf en entry_reaches[OF nf, of e ar] show ?thesis
      by (simp add: handler_eq del: catch_top.simps)
  next
    case (Inr u)
    with en entry_reaches[OF nf, of e ar]
    have st: "reaches e ar (start e ar g) (Transcribing, g1)" by simp
    obtain r2 g2 where pr: "seg_prompt e ar g1 = (r2, g2)" by (cases "seg_prompt e ar g1")
    show ?thesis
    proof (cases r2)
      case (Inl err)
      with nf en Inr pr have h: "handler e ar g = catch_top err g2"
        by (simp add: handler_eq del: catch_top.simps)
      from Inl pr have "resume e ar Transcribing g1
                          = (Finished (fst (catch_top err g2)), snd (catch_top err g2))"
        by (simp add: split_beta del: catch_top.simps)
      with reaches_one[of e ar Transcribing g1]
      have "reaches e ar (Transcribing, g1) (Finished (fst (handler e ar g)), snd (handler e ar g))"
        by (simp only: h)
      from reaches_trans[OF st this] show ?thesis .
    next
      case (Inr v)
      obtain tr rid prompt cands where v: "v = (tr, rid, prompt, cands)" by (cases v) auto
      let ?G = "g2\<lparr>voiceStreamingActive := True\<rparr>"
      let ?L = "gen_loop e rid prompt cands ?G"
      from Inr v pr have rs: "resume e ar Transcribing g1 = next_fetch e tr rid prompt cands ?G"
        by simp
      have "reaches e ar (Transcribing, g1) (finish e tr rid (fst ?L) (fst (snd ?L)) (snd (snd ?L)))"
        by (rule reaches_resume) (simp only: rs gen_reaches)
      moreover have "handler e ar g =
          (case conclude e tr rid (fst ?L) (fst (snd ?L))
                  ((snd (snd ?L))\<lparr>voiceStreamingActive := False\<rparr>) of
             (Inl err, g4) \<Rightarrow> catch_top err g4 | (Inr r, g4) \<Rightarrow> (r, g4))"
        using nf en \<open>r = Inr u\<close> pr Inr v
        by (cases ?L) (simp add: handler_eq del: catch_top.simps)
      then have "finish e tr rid (fst ?L) (fst (snd ?L)) (snd (snd ?L))
              = (Finished (fst (handler e ar g)), snd (handler e ar g))"
        by (simp only: finish_eq)
      ultimately have "reaches e ar (Transcribing, g1)
                         (Finished (fst (handler e ar g)), snd (handler e ar g))"
        by simp
      from reaches_trans[OF st this] show ?thesis .
    qed
  qed
qed

subsection \<open>A request in flight cannot be stopped\<close>

text \<open>
  C8. The module registers no handler that aborts a request: the \<open>AbortController\<close> of
  an attempt is a constant local to one iteration of the loop, its \<open>abort\<close> is never
  called, and a suspended task reads no variable that another handler could set to stop it.
  The run below resets the module in the middle of a stream with \<open>resetAll\<close>, the only
  other handler that clears the streaming flag. After the reset the task still sends the
  partial events of its request id and its result event, and it appends its turn to the
  history that the reset had emptied; no event tells the renderer of an abort.
\<close>

theorem stream_survives_reset:
  "map (snd \<circ> snd) (snd (sys_run (initial_state True, []) reset_mid_stream))
     = [Finished (Success ''what is up'' ''ab'' ''phi3:latest'' (100, ''k3x9ab''))]
   \<and> voiceHistory (fst (sys_run (initial_state True, []) reset_mid_stream))
     = [\<lparr>turn_q = ''what is up'', turn_a = ''ab'', turn_ts = 200\<rparr>]
   \<and> drop 6 (trace (fst (sys_run (initial_state True, []) reset_mid_stream)))
     = [Send ResetView, Send ProcessingReset, Send VoiceReset,
        Send (Partial (100, ''k3x9ab'') ''a'' ''a'' ''phi3:latest''),
        Send (Partial (100, ''k3x9ab'') ''b'' ''ab'' ''phi3:latest''),
        Send (Result ''what is up'' ''ab'' ''phi3:latest'' (100, ''k3x9ab''))]"
  by (simp add: sys_run_def reset_mid_stream_def env_stream_def env_third_def llm_stream_def
        args_audio_def initial_state_def start_def seg_write_def seg_axios_def seg_form_def
        seg_prompt_def Let_def
        js_or_def send_def perform_def candidateModels_def js_truthy_def defaultModels_def
        next_fetch_def finish_def conclude_def resetAll_def process_chunk_def lines_of_def
        process_line_def body_ab_def js_trim_def is_space_def newline_def toy_parse_def
        push_turn_def VOICE_HISTORY_MAX_TURNS_def)

end
